theory Spec2Isabelle
  imports Main "HOL-Library.AList"
begin

section \<open>Values and callbacks\<close>

text \<open>
  The library under verification (\<^verbatim>\<open>src/time.ts\<close>, \<^verbatim>\<open>event.ts\<close>) offers three
  primitives (\<^verbatim>\<open>Interval\<close>, \<^verbatim>\<open>Delay\<close>, \<^verbatim>\<open>Until\<close>) on top of a time registry. The
  registry modelled here is \<^verbatim>\<open>UpdateableTimeRegistry\<close>, whose clock moves only when
  \<^verbatim>\<open>update(delta)\<close> is called.

  Numbers are millisecond counts and timer ids; they are modelled as \<^typ>\<open>int\<close>, which
  is what the source's doubles compute on integral values inside the safe-integer range.

  A JavaScript function value stored by the program is modelled by a constructor that
  names the closure and carries the variables it captured. The closures the library
  itself creates are modelled with their full bodies. Functions supplied by the caller
  (tick listeners, handlers passed to the registry directly, promise reactions) are
  opaque: calling one appends an entry to the \<open>trace\<close> of the world and does not call
  back into the library. A condition supplied to \<^verbatim>\<open>Until\<close> reads a variable of the
  caller; \<^verbatim>\<open>Time.while\<close> wraps it in a negation.
\<close>

datatype cond = Flag nat | Negated cond

fun eval_cond :: "(nat \<Rightarrow> bool) \<Rightarrow> cond \<Rightarrow> bool" where
  "eval_cond fl (Flag n) = fl n"
| "eval_cond fl (Negated c) = (\<not> eval_cond fl c)"

datatype handler =
    IntervalTick nat
  | DelayElapsed nat
  | UntilPoll nat nat int
  | UserHandler nat

datatype event =
    IntervalInvoked int
  | TimeoutInvoked int
  | ListenerCalled nat int
  | UserCalled nat "int list"

datatype error = TypeError

section \<open>The updateable registry\<close>

record TimeoutHandler =
  handler :: handler
  args :: "int list"
  allowedExecutionTime :: int

record IntervalHandler = TimeoutHandler +
  interval :: int

text \<open>
  The two \<^verbatim>\<open>Map\<close>s of the registry are association lists in insertion order:
  \<^verbatim>\<open>Map.set\<close> replaces the value of a key that is present and appends a new key,
  \<^verbatim>\<open>Map.delete\<close> removes the key.
\<close>

record UpdateableTimeRegistry =
  intervals :: "(int \<times> IntervalHandler) list"
  timeouts :: "(int \<times> TimeoutHandler) list"
  currentId :: int
  lastTime :: int

definition MIN_SAFE_INTEGER :: int where
  "MIN_SAFE_INTEGER = - (2 ^ 53 - 1)"

definition MAX_SAFE_INTEGER :: int where
  "MAX_SAFE_INTEGER = 2 ^ 53 - 1"

definition new_registry :: "int \<Rightarrow> UpdateableTimeRegistry" where
  "new_registry startTime =
     \<lparr>intervals = [], timeouts = [], currentId = MIN_SAFE_INTEGER, lastTime = startTime\<rparr>"

definition now :: "UpdateableTimeRegistry \<Rightarrow> int" where
  "now r = lastTime r"

definition generateId :: "UpdateableTimeRegistry \<Rightarrow> int \<times> UpdateableTimeRegistry" where
  "generateId r =
     (let k = currentId r;
          c = currentId r + 1
      in (k, r\<lparr>currentId := (if c = MAX_SAFE_INTEGER then MIN_SAFE_INTEGER else c)\<rparr>))"

text \<open>\<^verbatim>\<open>interval ? Math.max(interval, 0) : 0\<close>, the argument being optional.\<close>

definition clamp_ms :: "int option \<Rightarrow> int" where
  "clamp_ms i = (case i of None \<Rightarrow> 0 | Some v \<Rightarrow> if v \<noteq> 0 then max v 0 else 0)"

definition setInterval ::
  "handler \<Rightarrow> int option \<Rightarrow> int list \<Rightarrow> UpdateableTimeRegistry \<Rightarrow> int \<times> UpdateableTimeRegistry" where
  "setInterval h i a r =
     (let (k, r1) = generateId r;
          iv = clamp_ms i
      in (k, r1\<lparr>intervals :=
                  AList.update k
                    \<lparr>handler = h, args = a, allowedExecutionTime = lastTime r1 + iv, interval = iv\<rparr>
                    (intervals r1)\<rparr>))"

definition clearInterval :: "int \<Rightarrow> UpdateableTimeRegistry \<Rightarrow> UpdateableTimeRegistry" where
  "clearInterval k r = r\<lparr>intervals := AList.delete k (intervals r)\<rparr>"

definition setTimeout ::
  "handler \<Rightarrow> int option \<Rightarrow> int list \<Rightarrow> UpdateableTimeRegistry \<Rightarrow> int \<times> UpdateableTimeRegistry" where
  "setTimeout h d a r =
     (let (k, r1) = generateId r;
          dl = clamp_ms d
      in (k, r1\<lparr>timeouts :=
                  AList.update k
                    \<lparr>handler = h, args = a, allowedExecutionTime = lastTime r1 + dl\<rparr>
                    (timeouts r1)\<rparr>))"

definition clearTimeout :: "int \<Rightarrow> UpdateableTimeRegistry \<Rightarrow> UpdateableTimeRegistry" where
  "clearTimeout k r = r\<lparr>timeouts := AList.delete k (timeouts r)\<rparr>"

section \<open>Promises and the three primitives\<close>

datatype settlement = Pending | Fulfilled | Rejected string

record promise =
  state :: settlement
  reactions :: "nat list"

datatype icanceller = INoop | IClear int

record Interval =
  i_onTick :: "nat list"
  i_interval :: int
  i_isStarted :: bool
  i_canceller :: icanceller

text \<open>
  A \<^verbatim>\<open>Delay\<close> keeps the resolve and reject functions of the promise it created; each is
  modelled by the reference of that promise. Its canceller is either the empty function
  or the closure over \<^verbatim>\<open>timeoutId\<close> and \<^verbatim>\<open>rejecter\<close>.
\<close>

datatype canceller = Noop | CancelTimeout int nat

record Delay =
  d_promise :: nat
  d_resolver :: nat
  d_rejecter :: nat
  d_canceller :: canceller
  d_duration :: int
  d_rejectOnCancel :: bool
  d_isStarted :: bool
  d_isInitialized :: bool

record Until =
  u_promise :: nat
  u_condition :: "cond option"
  u_isStarted :: bool

text \<open>
  The world: the registry every primitive was constructed against, the objects on the
  heap (each store is addressed by reference, with the next free reference beside it),
  the variables of the caller that conditions read, and the trace of calls.
\<close>

record world =
  registry :: UpdateableTimeRegistry
  promises :: "nat \<Rightarrow> promise"
  nextPromise :: nat
  Intervals :: "nat \<Rightarrow> Interval"
  nextInterval :: nat
  Delays :: "nat \<Rightarrow> Delay"
  nextDelay :: nat
  Untils :: "nat \<Rightarrow> Until"
  nextUntil :: nat
  flags :: "nat \<Rightarrow> bool"
  trace :: "event list"

definition init :: "int \<Rightarrow> world" where
  "init startTime =
     \<lparr>registry = new_registry startTime,
      promises = (\<lambda>_. \<lparr>state = Pending, reactions = []\<rparr>), nextPromise = 0,
      Intervals = (\<lambda>_. \<lparr>i_onTick = [], i_interval = 0, i_isStarted = False, i_canceller = INoop\<rparr>),
      nextInterval = 0,
      Delays = (\<lambda>_. \<lparr>d_promise = 0, d_resolver = 0, d_rejecter = 0, d_canceller = Noop,
                      d_duration = 0, d_rejectOnCancel = False, d_isStarted = False,
                      d_isInitialized = False\<rparr>),
      nextDelay = 0,
      Untils = (\<lambda>_. \<lparr>u_promise = 0, u_condition = None, u_isStarted = False\<rparr>),
      nextUntil = 0,
      flags = (\<lambda>_. False),
      trace = []\<rparr>"

subsection \<open>Promises\<close>

definition new_promise :: "settlement \<Rightarrow> world \<Rightarrow> nat \<times> world" where
  "new_promise s w =
     (let p = nextPromise w
      in (p, w\<lparr>promises := (promises w)(p := \<lparr>state = s, reactions = []\<rparr>),
               nextPromise := p + 1\<rparr>))"

text \<open>\<^verbatim>\<open>_createPromise\<close>: a pending promise with its resolve and reject functions.\<close>

definition createPromise :: "world \<Rightarrow> nat \<times> world" where
  "createPromise w = new_promise Pending w"

text \<open>Resolving or rejecting a promise that is already settled does nothing.\<close>

definition settle :: "nat \<Rightarrow> settlement \<Rightarrow> world \<Rightarrow> world" where
  "settle p s w =
     (if state (promises w p) = Pending
      then w\<lparr>promises := (promises w)(p := (promises w p)\<lparr>state := s\<rparr>)\<rparr>
      else w)"

text \<open>\<^verbatim>\<open>then\<close>, \<^verbatim>\<open>catch\<close> and \<^verbatim>\<open>finally\<close> each attach a reaction to the promise.\<close>

definition attach :: "nat \<Rightarrow> nat \<Rightarrow> world \<Rightarrow> world" where
  "attach p a w =
     w\<lparr>promises := (promises w)(p := (promises w p)\<lparr>reactions := reactions (promises w p) @ [a]\<rparr>)\<rparr>"

text \<open>What a reaction attached to a promise observes.\<close>

definition observes :: "world \<Rightarrow> nat \<Rightarrow> nat \<Rightarrow> settlement \<Rightarrow> bool" where
  "observes w a p s = (a \<in> set (reactions (promises w p)) \<and> state (promises w p) = s)"

subsection \<open>Event\<close>

definition Event_add :: "nat \<Rightarrow> nat list \<Rightarrow> nat list" where
  "Event_add l ls = ls @ [l]"

definition Event_remove :: "nat \<Rightarrow> nat list \<Rightarrow> nat list" where
  "Event_remove l ls = remove1 l ls"

definition Event_fire :: "nat list \<Rightarrow> int \<Rightarrow> world \<Rightarrow> world" where
  "Event_fire ls v w = w\<lparr>trace := trace w @ map (\<lambda>l. ListenerCalled l v) ls\<rparr>"

subsection \<open>Interval\<close>

definition Interval_start :: "nat \<Rightarrow> world \<Rightarrow> world" where
  "Interval_start i w =
     (let I = Intervals w i in
      if i_isStarted I then w
      else
        let (k, r) = setInterval (IntervalTick i) (Some (i_interval I)) [] (registry w)
        in w\<lparr>registry := r,
             Intervals := (Intervals w)(i := I\<lparr>i_isStarted := True, i_canceller := IClear k\<rparr>)\<rparr>)"

definition Interval_cancel :: "nat \<Rightarrow> world \<Rightarrow> world" where
  "Interval_cancel i w =
     (let I = Intervals w i;
          w1 = (case i_canceller I of
                  INoop \<Rightarrow> w
                | IClear k \<Rightarrow>
                    w\<lparr>registry := clearInterval k (registry w),
                      Intervals := (Intervals w)(i := I\<lparr>i_canceller := INoop\<rparr>)\<rparr>)
      in w1\<lparr>Intervals := (Intervals w1)(i := (Intervals w1 i)\<lparr>i_isStarted := False\<rparr>)\<rparr>)"

definition Interval_reset :: "nat \<Rightarrow> int \<Rightarrow> world \<Rightarrow> world" where
  "Interval_reset i v w =
     (let w1 = Interval_cancel i w
      in w1\<lparr>Intervals := (Intervals w1)(i := (Intervals w1 i)\<lparr>i_interval := max 0 v\<rparr>)\<rparr>)"

definition Interval_new :: "int \<Rightarrow> bool \<Rightarrow> world \<Rightarrow> nat \<times> world" where
  "Interval_new v autoStart w =
     (let i = nextInterval w;
          w1 = w\<lparr>Intervals := (Intervals w)(i :=
                    \<lparr>i_onTick = [], i_interval = max 0 v, i_isStarted = False, i_canceller = INoop\<rparr>),
                 nextInterval := i + 1\<rparr>
      in (i, if autoStart then Interval_start i w1 else w1))"

definition onTick_add :: "nat \<Rightarrow> nat \<Rightarrow> world \<Rightarrow> world" where
  "onTick_add i l w =
     w\<lparr>Intervals := (Intervals w)(i := (Intervals w i)\<lparr>i_onTick := Event_add l (i_onTick (Intervals w i))\<rparr>)\<rparr>"

definition onTick_remove :: "nat \<Rightarrow> nat \<Rightarrow> world \<Rightarrow> world" where
  "onTick_remove i l w =
     w\<lparr>Intervals := (Intervals w)(i := (Intervals w i)\<lparr>i_onTick := Event_remove l (i_onTick (Intervals w i))\<rparr>)\<rparr>"

subsection \<open>Delay\<close>

text \<open>\<^verbatim>\<open>if (!timeoutId || !rejecter)\<close>: an absent argument, or the timer id 0.\<close>

definition createCanceler :: "(int \<times> nat) option \<Rightarrow> canceller" where
  "createCanceler a =
     (case a of
        None \<Rightarrow> Noop
      | Some (timeoutId, rejecter) \<Rightarrow> if timeoutId = 0 then Noop else CancelTimeout timeoutId rejecter)"

text \<open>The function passed to \<^verbatim>\<open>setTimeout\<close> by \<^verbatim>\<open>Delay.start\<close>.\<close>

definition Delay_elapsed :: "nat \<Rightarrow> world \<Rightarrow> world" where
  "Delay_elapsed d w =
     (let w1 = w\<lparr>Delays := (Delays w)(d := (Delays w d)
                  \<lparr>d_isStarted := False, d_isInitialized := False,
                   d_canceller := createCanceler None\<rparr>)\<rparr>
      in settle (d_resolver (Delays w1 d)) Fulfilled w1)"

definition Delay_start :: "nat \<Rightarrow> world \<Rightarrow> world" where
  "Delay_start d w =
     (if d_isStarted (Delays w d) then w
      else
        let w1 = (if \<not> d_isInitialized (Delays w d)
                  then (let (p, w') = createPromise w
                        in w'\<lparr>Delays := (Delays w')(d := (Delays w' d)
                               \<lparr>d_promise := p, d_resolver := p, d_rejecter := p,
                                d_isInitialized := True\<rparr>)\<rparr>)
                  else w);
            (timeoutId, r) =
               setTimeout (DelayElapsed d) (Some (d_duration (Delays w1 d))) [] (registry w1)
        in w1\<lparr>registry := r,
              Delays := (Delays w1)(d := (Delays w1 d)
                 \<lparr>d_canceller := createCanceler (Some (timeoutId, d_rejecter (Delays w1 d)))\<rparr>)\<rparr>)"

text \<open>\<^verbatim>\<open>cancel\<close> calls the current canceller.\<close>

definition Delay_cancel :: "nat \<Rightarrow> world \<Rightarrow> world" where
  "Delay_cancel d w =
     (case d_canceller (Delays w d) of
        Noop \<Rightarrow> w
      | CancelTimeout timeoutId rejecter \<Rightarrow>
          let w1 = (if d_rejectOnCancel (Delays w d)
                    then settle rejecter (Rejected ''cancelled'') w else w);
              w2 = w1\<lparr>registry := clearTimeout timeoutId (registry w1)\<rparr>
          in w2\<lparr>Delays := (Delays w2)(d := (Delays w2 d)
                 \<lparr>d_canceller := Noop, d_isStarted := False, d_isInitialized := False\<rparr>)\<rparr>)"

definition Delay_reset :: "nat \<Rightarrow> int \<Rightarrow> world \<Rightarrow> world" where
  "Delay_reset d v w =
     (let w1 = Delay_cancel d w
      in w1\<lparr>Delays := (Delays w1)(d := (Delays w1 d)\<lparr>d_duration := max 0 v\<rparr>)\<rparr>)"

definition Delay_new :: "int \<Rightarrow> bool \<Rightarrow> bool \<Rightarrow> world \<Rightarrow> nat \<times> world" where
  "Delay_new v rejectOnCancel autoStart w =
     (let d = nextDelay w;
          (p, w1) = createPromise w;
          w2 = w1\<lparr>Delays := (Delays w1)(d :=
                    \<lparr>d_promise = p, d_resolver = p, d_rejecter = p,
                     d_canceller = createCanceler None,
                     d_duration = max 0 v, d_rejectOnCancel = rejectOnCancel,
                     d_isStarted = False, d_isInitialized = True\<rparr>),
                  nextDelay := d + 1\<rparr>
      in (d, if autoStart then Delay_start d w2 else w2))"

definition Delay_then :: "nat \<Rightarrow> nat \<Rightarrow> world \<Rightarrow> world" where
  "Delay_then d a w = attach (d_promise (Delays w d)) a w"

subsection \<open>Until\<close>

text \<open>
  The function passed to \<^verbatim>\<open>setInterval\<close> by \<^verbatim>\<open>Until.start\<close>. It captured \<^verbatim>\<open>this\<close>,
  the resolve function of the promise made by that \<^verbatim>\<open>start\<close>, and \<^verbatim>\<open>intervalId\<close>.
  Calling the condition after it was replaced by \<^verbatim>\<open>undefined\<close> throws.
\<close>

definition Until_poll :: "nat \<Rightarrow> nat \<Rightarrow> int \<Rightarrow> world \<Rightarrow> error + world" where
  "Until_poll u resolver intervalId w =
     (case u_condition (Untils w u) of
        None \<Rightarrow> Inl TypeError
      | Some c \<Rightarrow>
          if eval_cond (flags w) c
          then
            let w1 = settle resolver Fulfilled w;
                w2 = w1\<lparr>registry := clearInterval intervalId (registry w1)\<rparr>
            in Inr (w2\<lparr>Untils := (Untils w2)(u := (Untils w2 u)\<lparr>u_condition := None\<rparr>)\<rparr>)
          else Inr w)"

text \<open>
  \<^verbatim>\<open>intervalId\<close> is assigned when \<^verbatim>\<open>setInterval\<close> returns, before the closure can
  run; its value is the id \<^verbatim>\<open>_generateId\<close> hands out next.
\<close>

definition Until_start :: "nat \<Rightarrow> world \<Rightarrow> world" where
  "Until_start u w =
     (if u_isStarted (Untils w u) then w
      else
        let w1 = w\<lparr>Untils := (Untils w)(u := (Untils w u)\<lparr>u_isStarted := True\<rparr>)\<rparr>;
            (resolver, w2) = new_promise Pending w1;
            w3 = w2\<lparr>Untils := (Untils w2)(u := (Untils w2 u)\<lparr>u_promise := resolver\<rparr>)\<rparr>;
            intervalId = fst (generateId (registry w3));
            (k, r) = setInterval (UntilPoll u resolver intervalId) (Some 0) [] (registry w3)
        in w3\<lparr>registry := r\<rparr>)"

definition Until_new :: "cond \<Rightarrow> bool \<Rightarrow> world \<Rightarrow> nat \<times> world" where
  "Until_new c autoStart w =
     (let u = nextUntil w;
          (p, w1) = new_promise Fulfilled w;
          w2 = w1\<lparr>Untils := (Untils w1)(u :=
                    \<lparr>u_promise = p, u_condition = Some c, u_isStarted = False\<rparr>),
                  nextUntil := u + 1\<rparr>
      in (u, if autoStart then Until_start u w2 else w2))"

definition While_new :: "cond \<Rightarrow> bool \<Rightarrow> world \<Rightarrow> nat \<times> world" where
  "While_new c autoStart w = Until_new (Negated c) autoStart w"

definition Until_then :: "nat \<Rightarrow> nat \<Rightarrow> world \<Rightarrow> world" where
  "Until_then u a w = attach (u_promise (Untils w u)) a w"

section \<open>Advancing the clock\<close>

fun call_handler :: "handler \<Rightarrow> int list \<Rightarrow> world \<Rightarrow> error + world" where
  "call_handler (IntervalTick i) a w =
     Inr (Event_fire (i_onTick (Intervals w i)) (now (registry w)) w)"
| "call_handler (DelayElapsed d) a w = Inr (Delay_elapsed d w)"
| "call_handler (UntilPoll u resolver intervalId) a w = Until_poll u resolver intervalId w"
| "call_handler (UserHandler n) a w = Inr (w\<lparr>trace := trace w @ [UserCalled n a]\<rparr>)"

text \<open>
  One round of the first loop of \<^verbatim>\<open>update\<close>, for the entry with key \<open>k\<close>. The trace
  records the invocation before the handler runs; the program keeps no such record, the
  entry is there so that the number of invocations can be stated. The assignment to
  \<^verbatim>\<open>interval.allowedExecutionTime\<close> after the call changes the entry when it is still
  in the map; when the handler removed its own entry the assigned object is unreachable.
\<close>

definition set_due :: "int \<Rightarrow> int \<Rightarrow> UpdateableTimeRegistry \<Rightarrow> UpdateableTimeRegistry" where
  "set_due k t r =
     r\<lparr>intervals := AList.map_entry k (\<lambda>it. it\<lparr>allowedExecutionTime := t + interval it\<rparr>) (intervals r)\<rparr>"

definition step_interval :: "int \<Rightarrow> int \<Rightarrow> world \<Rightarrow> error + world" where
  "step_interval currentTime k w =
     (case map_of (intervals (registry w)) k of
        None \<Rightarrow> Inr w
      | Some it \<Rightarrow>
          if currentTime \<ge> allowedExecutionTime it
          then (case call_handler (handler it) (args it) (w\<lparr>trace := trace w @ [IntervalInvoked k]\<rparr>) of
                  Inl e \<Rightarrow> Inl e
                | Inr w1 \<Rightarrow> Inr (w1\<lparr>registry := set_due k currentTime (registry w1)\<rparr>))
          else Inr w)"

definition step_timeout :: "int \<Rightarrow> int \<Rightarrow> world \<Rightarrow> error + world" where
  "step_timeout currentTime k w =
     (case map_of (timeouts (registry w)) k of
        None \<Rightarrow> Inr w
      | Some t \<Rightarrow>
          if currentTime \<ge> allowedExecutionTime t
          then (case call_handler (handler t) (args t) (w\<lparr>trace := trace w @ [TimeoutInvoked k]\<rparr>) of
                  Inl e \<Rightarrow> Inl e
                | Inr w1 \<Rightarrow> Inr (w1\<lparr>registry := clearTimeout k (registry w1)\<rparr>))
          else Inr w)"

text \<open>
  A loop over a map visits the keys in insertion order and skips a key deleted before
  its turn. No callback of the model inserts a key during the pass, so the keys to
  visit are those present when the loop starts. An exception leaves the loop.
\<close>

fun for_each :: "(int \<Rightarrow> world \<Rightarrow> error + world) \<Rightarrow> int list \<Rightarrow> world \<Rightarrow> error + world" where
  "for_each f [] w = Inr w"
| "for_each f (k # ks) w = (case f k w of Inl e \<Rightarrow> Inl e | Inr w1 \<Rightarrow> for_each f ks w1)"

definition update :: "int \<Rightarrow> world \<Rightarrow> error + world" where
  "update delta w =
     (let currentTime = lastTime (registry w) + delta in
      case for_each (step_interval currentTime) (map fst (intervals (registry w))) w of
        Inl e \<Rightarrow> Inl e
      | Inr w1 \<Rightarrow>
          (case for_each (step_timeout currentTime) (map fst (timeouts (registry w1))) w1 of
             Inl e \<Rightarrow> Inl e
           | Inr w2 \<Rightarrow> Inr (w2\<lparr>registry := (registry w2)\<lparr>lastTime := currentTime\<rparr>\<rparr>)))"

section \<open>Programs of the caller\<close>

text \<open>
  The calls a program can make. A method call names an object that a constructor has
  returned; a call on a reference that no constructor has returned cannot be written
  and has no effect in the model.
\<close>

datatype op =
    Update int
  | SetInterval nat "int option" "int list"
  | ClearInterval int
  | SetTimeout nat "int option" "int list"
  | ClearTimeout int
  | NewInterval int bool
  | IntervalStart nat
  | IntervalCancel nat
  | IntervalReset nat int
  | OnTickAdd nat nat
  | OnTickRemove nat nat
  | NewDelay int bool bool
  | DelayStart nat
  | DelayCancel nat
  | DelayReset nat int
  | DelayThen nat nat
  | NewUntil cond bool
  | NewWhile cond bool
  | UntilStart nat
  | UntilThen nat nat
  | SetFlag nat bool

fun exec :: "op \<Rightarrow> world \<Rightarrow> error + world" where
  "exec (Update delta) w = update delta w"
| "exec (SetInterval n i a) w = Inr (w\<lparr>registry := snd (setInterval (UserHandler n) i a (registry w))\<rparr>)"
| "exec (ClearInterval k) w = Inr (w\<lparr>registry := clearInterval k (registry w)\<rparr>)"
| "exec (SetTimeout n i a) w = Inr (w\<lparr>registry := snd (setTimeout (UserHandler n) i a (registry w))\<rparr>)"
| "exec (ClearTimeout k) w = Inr (w\<lparr>registry := clearTimeout k (registry w)\<rparr>)"
| "exec (NewInterval v s) w = Inr (snd (Interval_new v s w))"
| "exec (IntervalStart i) w = Inr (if i < nextInterval w then Interval_start i w else w)"
| "exec (IntervalCancel i) w = Inr (if i < nextInterval w then Interval_cancel i w else w)"
| "exec (IntervalReset i v) w = Inr (if i < nextInterval w then Interval_reset i v w else w)"
| "exec (OnTickAdd i l) w = Inr (if i < nextInterval w then onTick_add i l w else w)"
| "exec (OnTickRemove i l) w = Inr (if i < nextInterval w then onTick_remove i l w else w)"
| "exec (NewDelay v rj s) w = Inr (snd (Delay_new v rj s w))"
| "exec (DelayStart d) w = Inr (if d < nextDelay w then Delay_start d w else w)"
| "exec (DelayCancel d) w = Inr (if d < nextDelay w then Delay_cancel d w else w)"
| "exec (DelayReset d v) w = Inr (if d < nextDelay w then Delay_reset d v w else w)"
| "exec (DelayThen d a) w = Inr (if d < nextDelay w then Delay_then d a w else w)"
| "exec (NewUntil c s) w = Inr (snd (Until_new c s w))"
| "exec (NewWhile c s) w = Inr (snd (While_new c s w))"
| "exec (UntilStart u) w = Inr (if u < nextUntil w then Until_start u w else w)"
| "exec (UntilThen u a) w = Inr (if u < nextUntil w then Until_then u a w else w)"
| "exec (SetFlag n b) w = Inr (w\<lparr>flags := (flags w)(n := b)\<rparr>)"

fun run :: "op list \<Rightarrow> world \<Rightarrow> error + world" where
  "run [] w = Inr w"
| "run (x # xs) w = (case exec x w of Inl e \<Rightarrow> Inl e | Inr w1 \<Rightarrow> run xs w1)"

section \<open>Observations\<close>

text \<open>The values a tick listener was called with, in order.\<close>

fun ticks_of :: "nat \<Rightarrow> event list \<Rightarrow> int list" where
  "ticks_of l [] = []"
| "ticks_of l (ListenerCalled l' v # es) = (if l' = l then v # ticks_of l es else ticks_of l es)"
| "ticks_of l (e # es) = ticks_of l es"

text \<open>An observation of the world a program ends in; none when it threw.\<close>

definition after :: "(world \<Rightarrow> 'a) \<Rightarrow> error + world \<Rightarrow> 'a option" where
  "after f r = (case r of Inl e \<Rightarrow> None | Inr w \<Rightarrow> Some (f w))"

text \<open>The trace entries written by \<open>update\<close> itself, one per handler it invokes.\<close>

fun is_invocation :: "event \<Rightarrow> bool" where
  "is_invocation (IntervalInvoked k) = True"
| "is_invocation (TimeoutInvoked k) = True"
| "is_invocation e = False"

fun is_poll :: "handler \<Rightarrow> bool" where
  "is_poll (UntilPoll u p k) = True"
| "is_poll h = False"

text \<open>Whether a map entry is due at a time.\<close>

definition due_at :: "int \<Rightarrow> 'a TimeoutHandler_scheme option \<Rightarrow> bool" where
  "due_at cur x = (case x of None \<Rightarrow> False | Some it \<Rightarrow> allowedExecutionTime it \<le> cur)"

text \<open>
  What the first loop of \<open>update\<close> leaves of an interval entry: a due entry has its
  time moved to the current time plus its interval, unless it is the poll of an
  \<^verbatim>\<open>Until\<close> that removed itself; an entry that is not due is unchanged.
\<close>

definition entry_after :: "int \<Rightarrow> IntervalHandler option \<Rightarrow> IntervalHandler option \<Rightarrow> bool" where
  "entry_after cur x y =
     (case x of
        None \<Rightarrow> y = None
      | Some it \<Rightarrow>
          if allowedExecutionTime it \<le> cur
          then y = Some (it\<lparr>allowedExecutionTime := cur + interval it\<rparr>)
               \<or> (y = None \<and> is_poll (handler it))
          else y = Some it)"

section \<open>Invariants of the reachable worlds\<close>

text \<open>
  The maps have distinct keys. The closure of an \<^verbatim>\<open>Until\<close> is registered as an
  interval under the id it captured, at most once for each \<^verbatim>\<open>Until\<close>, and that
  \<^verbatim>\<open>Until\<close> is started and still has its condition. An \<^verbatim>\<open>Until\<close> that was never
  started still has its condition.
\<close>

definition polls_ok :: "world \<Rightarrow> bool" where
  "polls_ok w \<longleftrightarrow>
     distinct (map fst (intervals (registry w))) \<and>
     distinct (map fst (timeouts (registry w))) \<and>
     (\<forall>k it u p iid. map_of (intervals (registry w)) k = Some it \<longrightarrow> handler it = UntilPoll u p iid \<longrightarrow>
        iid = k \<and> u < nextUntil w \<and> u_isStarted (Untils w u) \<and> u_condition (Untils w u) \<noteq> None) \<and>
     (\<forall>k k' it it' u p p'. map_of (intervals (registry w)) k = Some it \<longrightarrow>
        map_of (intervals (registry w)) k' = Some it' \<longrightarrow>
        handler it = UntilPoll u p k \<longrightarrow> handler it' = UntilPoll u p' k' \<longrightarrow> k = k') \<and>
     (\<forall>k t u p iid. map_of (timeouts (registry w)) k = Some t \<longrightarrow> handler t \<noteq> UntilPoll u p iid) \<and>
     (\<forall>u. u < nextUntil w \<longrightarrow> \<not> u_isStarted (Untils w u) \<longrightarrow> u_condition (Untils w u) \<noteq> None)"

text \<open>No entry is due before the clock of the registry, and no interval is negative.\<close>

definition dues_ok :: "world \<Rightarrow> bool" where
  "dues_ok w \<longleftrightarrow>
     (\<forall>k it. map_of (intervals (registry w)) k = Some it \<longrightarrow>
        lastTime (registry w) \<le> allowedExecutionTime it \<and> 0 \<le> interval it) \<and>
     (\<forall>k t. map_of (timeouts (registry w)) k = Some t \<longrightarrow>
        lastTime (registry w) \<le> allowedExecutionTime t)"

definition world_ok :: "world \<Rightarrow> bool" where
  "world_ok w \<longleftrightarrow> polls_ok w \<and> dues_ok w"


section \<open>What every call preserves\<close>

text \<open>
  References are only ever handed out in increasing order; a started \<^verbatim>\<open>Until\<close> stays
  started; a settled promise keeps its state; a reaction stays attached.
\<close>

definition grows :: "world \<Rightarrow> world \<Rightarrow> bool" where
  "grows w w' \<longleftrightarrow>
     nextUntil w \<le> nextUntil w' \<and> nextPromise w \<le> nextPromise w' \<and> nextDelay w \<le> nextDelay w'
     \<and> (\<forall>u < nextUntil w. u_isStarted (Untils w u) \<longrightarrow> u_isStarted (Untils w' u))
     \<and> (\<forall>p < nextPromise w.
           (state (promises w p) \<noteq> Pending \<longrightarrow> state (promises w' p) = state (promises w p))
           \<and> set (reactions (promises w p)) \<subseteq> set (reactions (promises w' p)))"

text \<open>A \<^verbatim>\<open>Delay\<close> whose canceller is the empty function keeps it.\<close>

definition stays_idle :: "nat \<Rightarrow> world \<Rightarrow> world \<Rightarrow> bool" where
  "stays_idle d w w' \<longleftrightarrow>
     nextDelay w \<le> nextDelay w'
     \<and> (d < nextDelay w \<longrightarrow> d_canceller (Delays w d) = Noop \<longrightarrow> d_canceller (Delays w' d) = Noop)"

text \<open>The promise and the started flag of an \<^verbatim>\<open>Until\<close> change only when it is started.\<close>

definition keeps_until :: "nat \<Rightarrow> world \<Rightarrow> world \<Rightarrow> bool" where
  "keeps_until u w w' \<longleftrightarrow>
     nextUntil w \<le> nextUntil w'
     \<and> (u < nextUntil w \<longrightarrow>
           u_isStarted (Untils w' u) = u_isStarted (Untils w u)
           \<and> u_promise (Untils w' u) = u_promise (Untils w u))"

definition same_clock :: "world \<Rightarrow> world \<Rightarrow> bool" where
  "same_clock w w' \<longleftrightarrow> lastTime (registry w') = lastTime (registry w)"

text \<open>An operation that does not move the clock back.\<close>

fun forward :: "op \<Rightarrow> bool" where
  "forward (Update delta) = (0 \<le> delta)"
| "forward x = True"

text \<open>The state of a promise, and what a reaction attached to it sees.\<close>

definition promise_state :: "nat \<Rightarrow> world \<Rightarrow> settlement" where
  "promise_state p w = state (promises w p)"

definition awaiter_sees :: "nat \<Rightarrow> nat \<Rightarrow> world \<Rightarrow> settlement option" where
  "awaiter_sees a p w = (if a \<in> set (reactions (promises w p)) then Some (state (promises w p)) else None)"

text \<open>A program for the examples: an interval, a timeout and a started \<^verbatim>\<open>Until\<close>.\<close>

definition sample_ops :: "op list" where
  "sample_ops =
     [SetInterval 1 (Some 500) [], SetTimeout 2 (Some 300) [], NewUntil (Flag 0) True, SetFlag 0 True]"

definition sample_world :: world where
  "sample_world = projr (run sample_ops (init 0))"

text \<open>Worlds for the example of an \<^verbatim>\<open>Until\<close> that is started late.\<close>

definition until_w1 :: world where
  "until_w1 = snd (Until_new (Flag 0) False (init 0))"

definition until_w2 :: world where
  "until_w2 = projr (run [SetFlag 0 True] until_w1)"

definition until_w3 :: world where
  "until_w3 = projr (run [Update 0] (Until_then 0 9 until_w2))"

definition until_w4 :: world where
  "until_w4 = projr (run [Update 0, Update 0] (Until_start 0 until_w3))"

section \<open>The registry loops\<close>

lemma call_handler_plain:
  assumes "\<And>u p iid. h \<noteq> UntilPoll u p iid"
  shows "\<exists>w'. call_handler h a w = Inr w' \<and> registry w' = registry w \<and> Untils w' = Untils w
     \<and> nextUntil w' = nextUntil w \<and> flags w' = flags w
     \<and> (\<forall>e. is_invocation e \<longrightarrow> count_list (trace w') e = count_list (trace w) e)"
  using assms
  by (cases h) (auto simp: Event_fire_def Delay_elapsed_def settle_def Let_def count_list_0_iff)

lemma call_handler_poll:
  assumes "call_handler (UntilPoll u p iid) a w = Inr w'"
  shows "(w' = w \<or>
         (registry w' = clearInterval iid (registry w) \<and>
          Untils w' = (Untils w)(u := (Untils w u)\<lparr>u_condition := None\<rparr>)))
     \<and> nextUntil w' = nextUntil w \<and> flags w' = flags w \<and> trace w' = trace w"
  using assms
  by (auto simp: Until_poll_def settle_def Let_def split: option.splits if_splits)

lemma call_handler_poll_total:
  assumes "u_condition (Untils w u) \<noteq> None"
  shows "\<exists>w'. call_handler (UntilPoll u p iid) a w = Inr w'"
  using assms by (auto simp: Until_poll_def Let_def split: option.splits)

lemma map_entry_absent: "k \<notin> fst ` set xs \<Longrightarrow> AList.map_entry k f xs = xs"
  by (induction xs) auto

lemma map_entry_delete: "AList.map_entry k f (AList.delete k xs) = AList.delete k xs"
  by (rule map_entry_absent) (rule delete_notin_dom)

lemma step_interval_cases:
  assumes st: "step_interval cur k w = Inr w'" and ok: "polls_ok w"
  shows "(w' = w \<and> (\<forall>it. map_of (intervals (registry w)) k = Some it \<longrightarrow> cur < allowedExecutionTime it))
       \<or> ((\<exists>it. map_of (intervals (registry w)) k = Some it \<and> allowedExecutionTime it \<le> cur)
           \<and> nextUntil w' = nextUntil w \<and> flags w' = flags w
           \<and> (\<forall>e. is_invocation e \<longrightarrow>
                 count_list (trace w') e = count_list (trace w) e + (if e = IntervalInvoked k then 1 else 0))
           \<and> ((registry w' = set_due k cur (registry w) \<and> Untils w' = Untils w)
              \<or> (\<exists>it u p. map_of (intervals (registry w)) k = Some it \<and> handler it = UntilPoll u p k
                    \<and> registry w' = clearInterval k (registry w)
                    \<and> Untils w' = (Untils w)(u := (Untils w u)\<lparr>u_condition := None\<rparr>))))"
proof (cases "map_of (intervals (registry w)) k")
  case None
  with st show ?thesis by (simp add: step_interval_def)
next
  case (Some it)
  show ?thesis
  proof (cases "allowedExecutionTime it \<le> cur")
    case False
    with st Some show ?thesis by (simp add: step_interval_def)
  next
    case True
    let ?w0 = "w\<lparr>trace := trace w @ [IntervalInvoked k]\<rparr>"
    from st Some True obtain w1 where
      ch: "call_handler (handler it) (args it) ?w0 = Inr w1"
      and w': "w' = w1\<lparr>registry := set_due k cur (registry w1)\<rparr>"
      by (auto simp: step_interval_def split: sum.splits)
    show ?thesis
    proof (cases "\<exists>u p iid. handler it = UntilPoll u p iid")
      case False
      then have "\<And>u p iid. handler it \<noteq> UntilPoll u p iid" by blast
      from call_handler_plain[OF this, of "args it" ?w0] ch
      have "registry w1 = registry w" "Untils w1 = Untils w" "nextUntil w1 = nextUntil w"
        "flags w1 = flags w"
        "\<forall>e. is_invocation e \<longrightarrow> count_list (trace w1) e = count_list (trace ?w0) e"
        by auto
      with w' Some True show ?thesis by auto
    next
      case True
      then obtain u p iid where h: "handler it = UntilPoll u p iid" by blast
      with ok Some have iid: "iid = k" unfolding polls_ok_def by blast
      from call_handler_poll[of u p iid "args it" ?w0 w1] ch h
      have c: "(w1 = ?w0 \<or>
         (registry w1 = clearInterval iid (registry w) \<and>
          Untils w1 = (Untils w)(u := (Untils w u)\<lparr>u_condition := None\<rparr>)))"
        and r: "nextUntil w1 = nextUntil w" "flags w1 = flags w" "trace w1 = trace ?w0"
        by auto
      from c show ?thesis
      proof
        assume "w1 = ?w0"
        with w' Some \<open>allowedExecutionTime it \<le> cur\<close> show ?thesis by auto
      next
        assume a: "registry w1 = clearInterval iid (registry w) \<and>
          Untils w1 = (Untils w)(u := (Untils w u)\<lparr>u_condition := None\<rparr>)"
        then have "registry w' = clearInterval k (registry w)"
          using w' iid by (simp add: set_due_def clearInterval_def map_entry_delete)
        with a w' r Some h iid \<open>allowedExecutionTime it \<le> cur\<close> show ?thesis by auto
      qed
    qed
  qed
qed

lemma step_interval_total:
  assumes ok: "polls_ok w"
  shows "\<exists>w'. step_interval cur k w = Inr w'"
proof (cases "map_of (intervals (registry w)) k")
  case None
  then show ?thesis by (simp add: step_interval_def)
next
  case (Some it)
  let ?w0 = "w\<lparr>trace := trace w @ [IntervalInvoked k]\<rparr>"
  have "\<exists>w1. call_handler (handler it) (args it) ?w0 = Inr w1"
  proof (cases "\<exists>u p iid. handler it = UntilPoll u p iid")
    case False
    then have "\<And>u p iid. handler it \<noteq> UntilPoll u p iid" by blast
    from call_handler_plain[OF this] show ?thesis by blast
  next
    case True
    then obtain u p iid where h: "handler it = UntilPoll u p iid" by blast
    with ok Some have "u_condition (Untils w u) \<noteq> None" unfolding polls_ok_def by blast
    then have "u_condition (Untils ?w0 u) \<noteq> None" by simp
    from call_handler_poll_total[OF this] h show ?thesis by simp
  qed
  with Some show ?thesis by (auto simp: step_interval_def)
qed

lemma polls_ok_shrink:
  assumes ok: "polls_ok w"
    and nu: "nextUntil w' = nextUntil w"
    and us: "\<forall>u. u_isStarted (Untils w' u) = u_isStarted (Untils w u)"
    and uc: "\<forall>u. u_condition (Untils w' u) \<noteq> u_condition (Untils w u) \<longrightarrow>
               u_isStarted (Untils w u) \<and>
               (\<forall>k it p iid. map_of (intervals (registry w')) k = Some it \<longrightarrow> handler it \<noteq> UntilPoll u p iid)"
    and di: "distinct (map fst (intervals (registry w')))"
    and dt: "distinct (map fst (timeouts (registry w')))"
    and iv: "\<forall>k it'. map_of (intervals (registry w')) k = Some it' \<longrightarrow>
               (\<exists>it. map_of (intervals (registry w)) k = Some it \<and> handler it' = handler it)"
    and tm: "\<forall>k t'. map_of (timeouts (registry w')) k = Some t' \<longrightarrow>
               (\<exists>t. map_of (timeouts (registry w)) k = Some t \<and> handler t' = handler t)"
  shows "polls_ok w'"
  unfolding polls_ok_def
proof (intro conjI allI impI)
  show "distinct (map fst (intervals (registry w')))" by (rule di)
  show "distinct (map fst (timeouts (registry w')))" by (rule dt)
next
  fix k it u p iid
  assume a: "map_of (intervals (registry w')) k = Some it" "handler it = UntilPoll u p iid"
  then obtain it0 where b: "map_of (intervals (registry w)) k = Some it0" "handler it0 = UntilPoll u p iid"
    using iv by fastforce
  with ok have c: "iid = k \<and> u < nextUntil w \<and> u_isStarted (Untils w u) \<and> u_condition (Untils w u) \<noteq> None"
    unfolding polls_ok_def by blast
  from uc a have "u_condition (Untils w' u) = u_condition (Untils w u)" by blast
  with c nu us show "iid = k" "u < nextUntil w'" "u_isStarted (Untils w' u)" "u_condition (Untils w' u) \<noteq> None"
    by auto
next
  fix k k' it it' u p p'
  assume a: "map_of (intervals (registry w')) k = Some it" "map_of (intervals (registry w')) k' = Some it'"
    "handler it = UntilPoll u p k" "handler it' = UntilPoll u p' k'"
  from iv a(1,3) obtain i0 where "map_of (intervals (registry w)) k = Some i0" "handler i0 = UntilPoll u p k"
    by fastforce
  moreover
  from iv a(2,4) obtain i0' where "map_of (intervals (registry w)) k' = Some i0'" "handler i0' = UntilPoll u p' k'"
    by fastforce
  ultimately show "k = k'" using ok unfolding polls_ok_def by blast
next
  fix k t u p iid
  assume a: "map_of (timeouts (registry w')) k = Some t"
  then obtain t0 where "map_of (timeouts (registry w)) k = Some t0" "handler t = handler t0"
    using tm by fastforce
  with ok show "handler t \<noteq> UntilPoll u p iid" unfolding polls_ok_def by metis
next
  fix u
  assume a: "u < nextUntil w'" "\<not> u_isStarted (Untils w' u)"
  with nu us have b: "u < nextUntil w" "\<not> u_isStarted (Untils w u)" by auto
  with uc have "u_condition (Untils w' u) = u_condition (Untils w u)" by blast
  with ok b show "u_condition (Untils w' u) \<noteq> None" unfolding polls_ok_def by simp
qed

lemma polls_ok_distinct:
  "polls_ok w \<Longrightarrow> distinct (map fst (intervals (registry w)))"
  "polls_ok w \<Longrightarrow> distinct (map fst (timeouts (registry w)))"
  by (simp_all add: polls_ok_def)

lemma step_interval_polls_ok:
  assumes st: "step_interval cur k w = Inr w'" and ok: "polls_ok w"
  shows "polls_ok w'"
proof -
  note c = step_interval_cases[OF st ok]
  note d = polls_ok_distinct[OF ok]
  { assume "w' = w" with ok have ?thesis by simp }
  moreover
  { assume a: "registry w' = set_due k cur (registry w)" "Untils w' = Untils w" "nextUntil w' = nextUntil w"
    have ?thesis
      by (rule polls_ok_shrink[OF ok])
         (use a d in \<open>auto simp: set_due_def map_of_map_entry distinct_map_entry split: option.splits if_splits\<close>)
  }
  moreover
  { fix it u p
    assume a: "map_of (intervals (registry w)) k = Some it" "handler it = UntilPoll u p k"
      "registry w' = clearInterval k (registry w)"
      "Untils w' = (Untils w)(u := (Untils w u)\<lparr>u_condition := None\<rparr>)" "nextUntil w' = nextUntil w"
    have uniq: "\<And>k' it' u' p' iid. map_of (intervals (registry w)) k' = Some it' \<Longrightarrow> k' \<noteq> k \<Longrightarrow>
        handler it' = UntilPoll u' p' iid \<Longrightarrow> u' \<noteq> u"
    proof
      fix k' it' u' p' iid
      assume b: "map_of (intervals (registry w)) k' = Some it'" "k' \<noteq> k" "handler it' = UntilPoll u' p' iid" "u' = u"
      with ok have "iid = k'" unfolding polls_ok_def by blast
      with ok a(1,2) b show False unfolding polls_ok_def by blast
    qed
    have ?thesis
    proof (rule polls_ok_shrink[OF ok])
      show "nextUntil w' = nextUntil w" using a by simp
      show "\<forall>u. u_isStarted (Untils w' u) = u_isStarted (Untils w u)" using a by simp
      show "distinct (map fst (intervals (registry w')))" using a d by (simp add: clearInterval_def distinct_delete)
      show "distinct (map fst (timeouts (registry w')))" using a d by (simp add: clearInterval_def)
      show "\<forall>k it'. map_of (intervals (registry w')) k = Some it' \<longrightarrow>
               (\<exists>it. map_of (intervals (registry w)) k = Some it \<and> handler it' = handler it)"
        using a by (auto simp: clearInterval_def delete_conv' split: if_splits)
      show "\<forall>k t'. map_of (timeouts (registry w')) k = Some t' \<longrightarrow>
               (\<exists>t. map_of (timeouts (registry w)) k = Some t \<and> handler t' = handler t)"
        using a by (auto simp: clearInterval_def)
      show "\<forall>u'. u_condition (Untils w' u') \<noteq> u_condition (Untils w u') \<longrightarrow>
               u_isStarted (Untils w u') \<and>
               (\<forall>k it p iid. map_of (intervals (registry w')) k = Some it \<longrightarrow> handler it \<noteq> UntilPoll u' p iid)"
      proof (intro allI impI)
        fix u'
        assume "u_condition (Untils w' u') \<noteq> u_condition (Untils w u')"
        with a(4) have u': "u' = u" by (auto split: if_splits)
        from ok a(1,2) have st: "u_isStarted (Untils w u)" unfolding polls_ok_def by blast
        have "\<forall>k' it' p' iid. map_of (intervals (registry w')) k' = Some it' \<longrightarrow> handler it' \<noteq> UntilPoll u p' iid"
        proof (intro allI impI)
          fix k' it' p' iid
          assume b: "map_of (intervals (registry w')) k' = Some it'"
          with a have "k' \<noteq> k" "map_of (intervals (registry w)) k' = Some it'"
            by (auto simp: clearInterval_def delete_conv' split: if_splits)
          from uniq[OF this(2,1)] show "handler it' \<noteq> UntilPoll u p' iid" by blast
        qed
        with st u' show "u_isStarted (Untils w u') \<and>
               (\<forall>k it p iid. map_of (intervals (registry w')) k = Some it \<longrightarrow> handler it \<noteq> UntilPoll u' p iid)"
          by simp
      qed
    qed
  }
  ultimately show ?thesis using c by blast
qed

lemma step_interval_frame:
  assumes st: "step_interval cur k w = Inr w'" and ok: "polls_ok w"
  shows "lastTime (registry w') = lastTime (registry w)"
    and "timeouts (registry w') = timeouts (registry w)"
    and "nextUntil w' = nextUntil w"
    and "flags w' = flags w"
  using step_interval_cases[OF st ok]
  by (auto simp: set_due_def clearInterval_def)

lemma step_interval_others:
  assumes st: "step_interval cur k w = Inr w'" and ok: "polls_ok w" and ne: "k' \<noteq> k"
  shows "map_of (intervals (registry w')) k' = map_of (intervals (registry w)) k'"
  using step_interval_cases[OF st ok] ne
  by (auto simp: set_due_def clearInterval_def map_of_map_entry delete_conv')

lemma step_interval_entry:
  assumes st: "step_interval cur k w = Inr w'" and ok: "polls_ok w"
  shows "entry_after cur (map_of (intervals (registry w)) k) (map_of (intervals (registry w')) k)"
  using step_interval_cases[OF st ok]
  by (auto simp: entry_after_def set_due_def clearInterval_def map_of_map_entry delete_conv'
           split: option.splits)

lemma step_interval_count:
  assumes st: "step_interval cur k w = Inr w'" and ok: "polls_ok w" and inv: "is_invocation e"
  shows "count_list (trace w') e = count_list (trace w) e +
          (if e = IntervalInvoked k \<and> due_at cur (map_of (intervals (registry w)) k) then 1 else 0)"
  using step_interval_cases[OF st ok] inv
  by (auto simp: due_at_def split: option.splits)

lemma for_each_Cons_Inr:
  assumes "for_each f (k # ks) w = Inr w'"
  obtains w1 where "f k w = Inr w1" "for_each f ks w1 = Inr w'"
  using assms by (cases "f k w") auto

lemma intervals_pass:
  assumes "for_each (step_interval cur) ks w = Inr w'" and "polls_ok w" and "distinct ks"
  shows "polls_ok w'
    \<and> lastTime (registry w') = lastTime (registry w)
    \<and> timeouts (registry w') = timeouts (registry w)
    \<and> nextUntil w' = nextUntil w
    \<and> flags w' = flags w
    \<and> (\<forall>k. k \<notin> set ks \<longrightarrow> map_of (intervals (registry w')) k = map_of (intervals (registry w)) k)
    \<and> (\<forall>k. k \<in> set ks \<longrightarrow> entry_after cur (map_of (intervals (registry w)) k) (map_of (intervals (registry w')) k))
    \<and> (\<forall>e. is_invocation e \<longrightarrow> count_list (trace w') e = count_list (trace w) e +
          (if \<exists>k \<in> set ks. e = IntervalInvoked k \<and> due_at cur (map_of (intervals (registry w)) k) then 1 else 0))"
  using assms
proof (induction ks arbitrary: w)
  case Nil
  then show ?case by simp
next
  case (Cons k ks)
  from Cons.prems(1) obtain w1 where s: "step_interval cur k w = Inr w1"
    and r: "for_each (step_interval cur) ks w1 = Inr w'"
    by (rule for_each_Cons_Inr)
  note ok = Cons.prems(2)
  from step_interval_polls_ok[OF s ok] have ok1: "polls_ok w1" .
  from Cons.prems(3) have d: "distinct ks" and nk: "k \<notin> set ks" by simp_all
  note ih = Cons.IH[OF r ok1 d]
  note fr = step_interval_frame[OF s ok]
  have same: "\<And>k'. k' \<noteq> k \<Longrightarrow> map_of (intervals (registry w1)) k' = map_of (intervals (registry w)) k'"
    by (rule step_interval_others[OF s ok])
  have c1: "polls_ok w'" using ih by blast
  have c2: "lastTime (registry w') = lastTime (registry w)" using ih fr by simp
  have c3: "timeouts (registry w') = timeouts (registry w)" using ih fr by simp
  have c4: "nextUntil w' = nextUntil w" using ih fr by simp
  have c5: "flags w' = flags w" using ih fr by simp
  have c6: "\<forall>k'. k' \<notin> set (k # ks) \<longrightarrow> map_of (intervals (registry w')) k' = map_of (intervals (registry w)) k'"
    using ih same by simp
  have c7: "\<forall>k'. k' \<in> set (k # ks) \<longrightarrow>
      entry_after cur (map_of (intervals (registry w)) k') (map_of (intervals (registry w')) k')"
  proof (intro allI impI)
    fix k' assume "k' \<in> set (k # ks)"
    then consider "k' = k" | "k' \<in> set ks" "k' \<noteq> k" using nk by auto
    then show "entry_after cur (map_of (intervals (registry w)) k') (map_of (intervals (registry w')) k')"
    proof cases
      case 1
      have "map_of (intervals (registry w')) k = map_of (intervals (registry w1)) k" using ih nk by blast
      with 1 step_interval_entry[OF s ok] show ?thesis by simp
    next
      case 2
      have "entry_after cur (map_of (intervals (registry w1)) k') (map_of (intervals (registry w')) k')"
        using ih 2(1) by blast
      with same[OF 2(2)] show ?thesis by simp
    qed
  qed
  have c8: "\<forall>e. is_invocation e \<longrightarrow> count_list (trace w') e = count_list (trace w) e +
          (if \<exists>k' \<in> set (k # ks). e = IntervalInvoked k' \<and> due_at cur (map_of (intervals (registry w)) k') then 1 else 0)"
  proof (intro allI impI)
    fix e assume e: "is_invocation e"
    have "count_list (trace w') e = count_list (trace w1) e +
          (if \<exists>k \<in> set ks. e = IntervalInvoked k \<and> due_at cur (map_of (intervals (registry w1)) k) then 1 else 0)"
      using ih e by blast
    also have "(\<exists>k \<in> set ks. e = IntervalInvoked k \<and> due_at cur (map_of (intervals (registry w1)) k))
             = (\<exists>k \<in> set ks. e = IntervalInvoked k \<and> due_at cur (map_of (intervals (registry w)) k))"
      using same nk by (metis)
    finally show "count_list (trace w') e = count_list (trace w) e +
          (if \<exists>k' \<in> set (k # ks). e = IntervalInvoked k' \<and> due_at cur (map_of (intervals (registry w)) k') then 1 else 0)"
      using step_interval_count[OF s ok e] nk by auto
  qed
  from c1 c2 c3 c4 c5 c6 c7 c8 show ?case by blast
qed

lemma for_each_total:
  assumes "\<And>k w. P w \<Longrightarrow> \<exists>w'. f k w = Inr w' \<and> P w'" and "P w"
  shows "\<exists>w'. for_each f ks w = Inr w'"
  using assms(2)
proof (induction ks arbitrary: w)
  case Nil
  then show ?case by simp
next
  case (Cons k ks)
  from assms(1)[OF Cons.prems] obtain w1 where "f k w = Inr w1" "P w1" by blast
  with Cons.IH[of w1] show ?case by simp
qed

lemma intervals_pass_total:
  assumes "polls_ok w"
  shows "\<exists>w'. for_each (step_interval cur) ks w = Inr w'"
proof (rule for_each_total[where P = polls_ok])
  show "polls_ok w" by (rule assms)
next
  fix k w assume ok: "polls_ok w"
  from step_interval_total[OF ok] obtain w' where "step_interval cur k w = Inr w'" by blast
  with step_interval_polls_ok[OF this ok] show "\<exists>w'. step_interval cur k w = Inr w' \<and> polls_ok w'" by blast
qed

lemma step_timeout_cases:
  assumes ok: "polls_ok w"
  shows "\<exists>w'. step_timeout cur k w = Inr w' \<and>
       (if due_at cur (map_of (timeouts (registry w)) k)
        then registry w' = clearTimeout k (registry w)
        else w' = w)
       \<and> Untils w' = Untils w \<and> nextUntil w' = nextUntil w \<and> flags w' = flags w
       \<and> (\<forall>e. is_invocation e \<longrightarrow>
             count_list (trace w') e = count_list (trace w) e +
               (if e = TimeoutInvoked k \<and> due_at cur (map_of (timeouts (registry w)) k) then 1 else 0))"
proof (cases "map_of (timeouts (registry w)) k")
  case None
  then show ?thesis by (simp add: step_timeout_def due_at_def)
next
  case (Some t)
  show ?thesis
  proof (cases "allowedExecutionTime t \<le> cur")
    case False
    with Some show ?thesis by (simp add: step_timeout_def due_at_def)
  next
    case True
    let ?w0 = "w\<lparr>trace := trace w @ [TimeoutInvoked k]\<rparr>"
    from ok Some have "\<And>u p iid. handler t \<noteq> UntilPoll u p iid" unfolding polls_ok_def by blast
    from call_handler_plain[OF this, of "args t" ?w0] obtain w1 where
      ch: "call_handler (handler t) (args t) ?w0 = Inr w1" and
      f: "registry w1 = registry w" "Untils w1 = Untils w" "nextUntil w1 = nextUntil w"
        "flags w1 = flags w"
        "\<forall>e. is_invocation e \<longrightarrow> count_list (trace w1) e = count_list (trace ?w0) e"
      by auto
    from Some True ch have "step_timeout cur k w = Inr (w1\<lparr>registry := clearTimeout k (registry w1)\<rparr>)"
      by (simp add: step_timeout_def)
    with f Some True show ?thesis by (auto simp: due_at_def)
  qed
qed

lemma step_timeout_polls_ok:
  assumes st: "step_timeout cur k w = Inr w'" and ok: "polls_ok w"
  shows "polls_ok w'"
proof -
  from step_timeout_cases[OF ok, of cur k] st
  have c: "registry w' = clearTimeout k (registry w) \<or> w' = w"
    and f: "Untils w' = Untils w" "nextUntil w' = nextUntil w"
    by (auto split: if_splits)
  note d = polls_ok_distinct[OF ok]
  from c show ?thesis
  proof
    assume "w' = w" with ok show ?thesis by simp
  next
    assume a: "registry w' = clearTimeout k (registry w)"
    show ?thesis
      by (rule polls_ok_shrink[OF ok])
         (use a d f in \<open>auto simp: clearTimeout_def distinct_delete delete_conv' split: if_splits\<close>)
  qed
qed

lemma timeouts_pass:
  assumes "polls_ok w" and "distinct ks"
  shows "\<exists>w'. for_each (step_timeout cur) ks w = Inr w'
    \<and> polls_ok w'
    \<and> lastTime (registry w') = lastTime (registry w)
    \<and> intervals (registry w') = intervals (registry w)
    \<and> nextUntil w' = nextUntil w
    \<and> flags w' = flags w
    \<and> (\<forall>k. map_of (timeouts (registry w')) k =
            (if k \<in> set ks \<and> due_at cur (map_of (timeouts (registry w)) k) then None
             else map_of (timeouts (registry w)) k))
    \<and> (\<forall>e. is_invocation e \<longrightarrow> count_list (trace w') e = count_list (trace w) e +
          (if \<exists>k \<in> set ks. e = TimeoutInvoked k \<and> due_at cur (map_of (timeouts (registry w)) k) then 1 else 0))"
  using assms
proof (induction ks arbitrary: w)
  case Nil
  then show ?case by simp
next
  case (Cons k ks)
  note ok = Cons.prems(1)
  from step_timeout_cases[OF ok, of cur k] obtain w1 where
    s: "step_timeout cur k w = Inr w1"
    and c: "if due_at cur (map_of (timeouts (registry w)) k)
        then registry w1 = clearTimeout k (registry w) else w1 = w"
    and f: "nextUntil w1 = nextUntil w" "flags w1 = flags w"
    and n: "\<forall>e. is_invocation e \<longrightarrow>
             count_list (trace w1) e = count_list (trace w) e +
               (if e = TimeoutInvoked k \<and> due_at cur (map_of (timeouts (registry w)) k) then 1 else 0)"
    by blast
  from step_timeout_polls_ok[OF s ok] have ok1: "polls_ok w1" .
  from Cons.prems(2) have d: "distinct ks" and nk: "k \<notin> set ks" by simp_all
  from Cons.IH[OF ok1 d] obtain w' where
    r: "for_each (step_timeout cur) ks w1 = Inr w'"
    and i1: "polls_ok w'"
    and i2: "lastTime (registry w') = lastTime (registry w1)"
    and i3: "intervals (registry w') = intervals (registry w1)"
    and i4: "nextUntil w' = nextUntil w1" "flags w' = flags w1"
    and i5: "\<forall>k. map_of (timeouts (registry w')) k =
            (if k \<in> set ks \<and> due_at cur (map_of (timeouts (registry w1)) k) then None
             else map_of (timeouts (registry w1)) k)"
    and i6: "\<forall>e. is_invocation e \<longrightarrow> count_list (trace w') e = count_list (trace w1) e +
          (if \<exists>k \<in> set ks. e = TimeoutInvoked k \<and> due_at cur (map_of (timeouts (registry w1)) k) then 1 else 0)"
    by blast
  have r1: "lastTime (registry w1) = lastTime (registry w)" "intervals (registry w1) = intervals (registry w)"
    using c by (auto simp: clearTimeout_def split: if_splits)
  have t1: "\<And>k'. map_of (timeouts (registry w1)) k' =
      (if k' = k \<and> due_at cur (map_of (timeouts (registry w)) k) then None else map_of (timeouts (registry w)) k')"
    using c by (auto simp: clearTimeout_def delete_conv' split: if_splits)
  have same: "\<And>k'. k' \<noteq> k \<Longrightarrow> map_of (timeouts (registry w1)) k' = map_of (timeouts (registry w)) k'"
    using t1 by simp
  have c0: "for_each (step_timeout cur) (k # ks) w = Inr w'" using s r by simp
  have c7: "\<forall>k'. map_of (timeouts (registry w')) k' =
            (if k' \<in> set (k # ks) \<and> due_at cur (map_of (timeouts (registry w)) k') then None
             else map_of (timeouts (registry w)) k')"
  proof
    fix k'
    show "map_of (timeouts (registry w')) k' =
            (if k' \<in> set (k # ks) \<and> due_at cur (map_of (timeouts (registry w)) k') then None
             else map_of (timeouts (registry w)) k')"
    proof (cases "k' = k")
      case True
      with i5 nk t1[of k] show ?thesis by simp
    next
      case False
      with i5 same[OF False] show ?thesis by simp
    qed
  qed
  have c8: "\<forall>e. is_invocation e \<longrightarrow> count_list (trace w') e = count_list (trace w) e +
          (if \<exists>k' \<in> set (k # ks). e = TimeoutInvoked k' \<and> due_at cur (map_of (timeouts (registry w)) k') then 1 else 0)"
  proof (intro allI impI)
    fix e assume e: "is_invocation e"
    have "count_list (trace w') e = count_list (trace w1) e +
          (if \<exists>k \<in> set ks. e = TimeoutInvoked k \<and> due_at cur (map_of (timeouts (registry w1)) k) then 1 else 0)"
      using i6 e by blast
    also have "(\<exists>k \<in> set ks. e = TimeoutInvoked k \<and> due_at cur (map_of (timeouts (registry w1)) k))
             = (\<exists>k \<in> set ks. e = TimeoutInvoked k \<and> due_at cur (map_of (timeouts (registry w)) k))"
      using same nk by metis
    finally show "count_list (trace w') e = count_list (trace w) e +
          (if \<exists>k' \<in> set (k # ks). e = TimeoutInvoked k' \<and> due_at cur (map_of (timeouts (registry w)) k') then 1 else 0)"
      using n e nk by auto
  qed
  from c0 i1 i2 i3 i4 r1 f c7 c8 show ?case by simp
qed

lemma entry_after_None: "entry_after cur None None"
  by (simp add: entry_after_def)

lemma update_effect:
  assumes ok: "polls_ok w"
  shows "\<exists>w'. update delta w = Inr w'
    \<and> polls_ok w'
    \<and> lastTime (registry w') = lastTime (registry w) + delta
    \<and> nextUntil w' = nextUntil w
    \<and> flags w' = flags w
    \<and> (\<forall>k. entry_after (lastTime (registry w) + delta)
              (map_of (intervals (registry w)) k) (map_of (intervals (registry w')) k))
    \<and> (\<forall>k. map_of (timeouts (registry w')) k =
            (if due_at (lastTime (registry w) + delta) (map_of (timeouts (registry w)) k) then None
             else map_of (timeouts (registry w)) k))
    \<and> (\<forall>k. count_list (trace w') (IntervalInvoked k) = count_list (trace w) (IntervalInvoked k) +
            (if due_at (lastTime (registry w) + delta) (map_of (intervals (registry w)) k) then 1 else 0))
    \<and> (\<forall>k. count_list (trace w') (TimeoutInvoked k) = count_list (trace w) (TimeoutInvoked k) +
            (if due_at (lastTime (registry w) + delta) (map_of (timeouts (registry w)) k) then 1 else 0))"
proof -
  let ?cur = "lastTime (registry w) + delta"
  let ?I = "intervals (registry w)" and ?T = "timeouts (registry w)"
  note d = polls_ok_distinct[OF ok]
  from intervals_pass_total[OF ok] obtain w1 where
    p1: "for_each (step_interval ?cur) (map fst ?I) w = Inr w1" by blast
  note a = intervals_pass[OF p1 ok d(1)]
  from a have ok1: "polls_ok w1" and a2: "lastTime (registry w1) = lastTime (registry w)"
    and a3: "timeouts (registry w1) = ?T" and a4: "nextUntil w1 = nextUntil w" "flags w1 = flags w"
    by simp_all
  from a have a6: "\<And>k. k \<notin> set (map fst ?I) \<Longrightarrow> map_of (intervals (registry w1)) k = map_of ?I k"
    and a7: "\<And>k. k \<in> set (map fst ?I) \<Longrightarrow> entry_after ?cur (map_of ?I k) (map_of (intervals (registry w1)) k)"
    and a8: "\<And>e. is_invocation e \<Longrightarrow> count_list (trace w1) e = count_list (trace w) e +
          (if \<exists>k \<in> set (map fst ?I). e = IntervalInvoked k \<and> due_at ?cur (map_of ?I k) then 1 else 0)"
    by blast+
  from d(2) a3 have d1: "distinct (map fst (timeouts (registry w1)))" by simp
  from timeouts_pass[OF ok1 d1, of ?cur] obtain w2 where
    p2: "for_each (step_timeout ?cur) (map fst (timeouts (registry w1))) w1 = Inr w2"
    and b1: "polls_ok w2"
    and b2: "lastTime (registry w2) = lastTime (registry w1)"
    and b3: "intervals (registry w2) = intervals (registry w1)"
    and b4: "nextUntil w2 = nextUntil w1" "flags w2 = flags w1"
    and b5: "\<And>k. map_of (timeouts (registry w2)) k =
            (if k \<in> set (map fst (timeouts (registry w1))) \<and> due_at ?cur (map_of (timeouts (registry w1)) k) then None
             else map_of (timeouts (registry w1)) k)"
    and b6: "\<And>e. is_invocation e \<Longrightarrow> count_list (trace w2) e = count_list (trace w1) e +
          (if \<exists>k \<in> set (map fst (timeouts (registry w1))). e = TimeoutInvoked k \<and> due_at ?cur (map_of (timeouts (registry w1)) k) then 1 else 0)"
    by blast
  let ?w' = "w2\<lparr>registry := (registry w2)\<lparr>lastTime := ?cur\<rparr>\<rparr>"
  have u: "update delta w = Inr ?w'"
    using p1 p2 by (simp add: update_def Let_def)
  have c1: "polls_ok ?w'" using b1 by (simp add: polls_ok_def)
  have dom_due: "\<And>xs k. due_at ?cur (map_of xs k) \<Longrightarrow> k \<in> set (map fst xs)"
    by (auto simp: due_at_def map_of_eq_None_iff split: option.splits) (metis domI dom_map_of_conv_image_fst)
  have dom_due_t: "\<And>(xs :: (int \<times> TimeoutHandler) list) k. due_at ?cur (map_of xs k) \<Longrightarrow> k \<in> set (map fst xs)"
    by (auto simp: due_at_def map_of_eq_None_iff split: option.splits) (metis domI dom_map_of_conv_image_fst)
  have c6: "\<forall>k. entry_after ?cur (map_of ?I k) (map_of (intervals (registry ?w')) k)"
  proof
    fix k
    show "entry_after ?cur (map_of ?I k) (map_of (intervals (registry ?w')) k)"
    proof (cases "k \<in> set (map fst ?I)")
      case True
      from a7[OF True] b3 show ?thesis by simp
    next
      case False
      then have "map_of ?I k = None" by (simp add: map_of_eq_None_iff)
      with a6[OF False] b3 show ?thesis by (simp add: entry_after_None)
    qed
  qed
  have c7: "\<forall>k. map_of (timeouts (registry ?w')) k =
            (if due_at ?cur (map_of ?T k) then None else map_of ?T k)"
    using b5 a3 dom_due_t by auto
  have c8: "\<forall>k. count_list (trace ?w') (IntervalInvoked k) = count_list (trace w) (IntervalInvoked k) +
            (if due_at ?cur (map_of ?I k) then 1 else 0)"
  proof
    fix k
    have "count_list (trace w2) (IntervalInvoked k) = count_list (trace w1) (IntervalInvoked k)"
      using b6[of "IntervalInvoked k"] by simp
    moreover have "count_list (trace w1) (IntervalInvoked k) = count_list (trace w) (IntervalInvoked k) +
          (if k \<in> set (map fst ?I) \<and> due_at ?cur (map_of ?I k) then 1 else 0)"
      using a8[of "IntervalInvoked k"] by simp
    ultimately show "count_list (trace ?w') (IntervalInvoked k) = count_list (trace w) (IntervalInvoked k) +
            (if due_at ?cur (map_of ?I k) then 1 else 0)"
      using dom_due[of ?I k] by auto
  qed
  have c9: "\<forall>k. count_list (trace ?w') (TimeoutInvoked k) = count_list (trace w) (TimeoutInvoked k) +
            (if due_at ?cur (map_of ?T k) then 1 else 0)"
  proof
    fix k
    have "count_list (trace w1) (TimeoutInvoked k) = count_list (trace w) (TimeoutInvoked k)"
      using a8[of "TimeoutInvoked k"] by simp
    moreover have "count_list (trace w2) (TimeoutInvoked k) = count_list (trace w1) (TimeoutInvoked k) +
          (if k \<in> set (map fst ?T) \<and> due_at ?cur (map_of ?T k) then 1 else 0)"
      using b6[of "TimeoutInvoked k"] a3 by simp
    ultimately show "count_list (trace ?w') (TimeoutInvoked k) = count_list (trace w) (TimeoutInvoked k) +
            (if due_at ?cur (map_of ?T k) then 1 else 0)"
      using dom_due_t[of ?T k] by auto
  qed
  have c3: "lastTime (registry ?w') = ?cur" by simp
  have c4: "nextUntil ?w' = nextUntil w" "flags ?w' = flags w" using a4 b4 by simp_all
  from u c1 c3 c4 c6 c7 c8 c9 show ?thesis by blast
qed

lemma clamp_ms_nonneg: "0 \<le> clamp_ms i"
  by (simp add: clamp_ms_def split: option.splits)

lemma clamp_ms_max: "clamp_ms (Some v) = max v 0"
  by (simp add: clamp_ms_def)

lemma setInterval_simps:
  "fst (setInterval h i a r) = currentId r"
  "intervals (snd (setInterval h i a r)) =
     AList.update (currentId r)
       \<lparr>handler = h, args = a, allowedExecutionTime = lastTime r + clamp_ms i, interval = clamp_ms i\<rparr>
       (intervals r)"
  "timeouts (snd (setInterval h i a r)) = timeouts r"
  "lastTime (snd (setInterval h i a r)) = lastTime r"
  by (simp_all add: setInterval_def generateId_def Let_def)

lemma setTimeout_simps:
  "fst (setTimeout h i a r) = currentId r"
  "timeouts (snd (setTimeout h i a r)) =
     AList.update (currentId r)
       \<lparr>handler = h, args = a, allowedExecutionTime = lastTime r + clamp_ms i\<rparr>
       (timeouts r)"
  "intervals (snd (setTimeout h i a r)) = intervals r"
  "lastTime (snd (setTimeout h i a r)) = lastTime r"
  by (simp_all add: setTimeout_def generateId_def Let_def)

lemma update_world_ok:
  assumes "world_ok w"
  shows "\<exists>w'. update delta w = Inr w' \<and> world_ok w'"
proof -
  from assms have ok: "polls_ok w" and du: "dues_ok w" by (simp_all add: world_ok_def)
  let ?cur = "lastTime (registry w) + delta"
  from update_effect[OF ok, of delta] obtain w' where
    u: "update delta w = Inr w'" and ok': "polls_ok w'"
    and lt: "lastTime (registry w') = ?cur"
    and iv: "\<And>k. entry_after ?cur (map_of (intervals (registry w)) k) (map_of (intervals (registry w')) k)"
    and tm: "\<And>k. map_of (timeouts (registry w')) k =
            (if due_at ?cur (map_of (timeouts (registry w)) k) then None
             else map_of (timeouts (registry w)) k)"
    by blast
  have "dues_ok w'"
    unfolding dues_ok_def
  proof (intro conjI allI impI)
    fix k it'
    assume a: "map_of (intervals (registry w')) k = Some it'"
    from iv[of k] a obtain it where b: "map_of (intervals (registry w)) k = Some it"
      and c: "if allowedExecutionTime it \<le> ?cur
              then it' = it\<lparr>allowedExecutionTime := ?cur + interval it\<rparr> else it' = it"
      by (auto simp: entry_after_def split: option.splits if_splits)
    from du b have p: "0 \<le> interval it" unfolding dues_ok_def by blast
    from c p lt show "lastTime (registry w') \<le> allowedExecutionTime it'" by (auto split: if_splits)
    from c p show "0 \<le> interval it'" by (auto split: if_splits)
  next
    fix k t
    assume a: "map_of (timeouts (registry w')) k = Some t"
    with tm[of k] have "\<not> due_at ?cur (map_of (timeouts (registry w)) k)"
      "map_of (timeouts (registry w)) k = Some t" by (auto split: if_splits)
    with lt show "lastTime (registry w') \<le> allowedExecutionTime t" by (simp add: due_at_def)
  qed
  with u ok' show ?thesis by (auto simp: world_ok_def)
qed

lemma world_ok_cong:
  assumes "world_ok w" "registry w' = registry w" "Untils w' = Untils w" "nextUntil w' = nextUntil w"
  shows "world_ok w'"
  using assms by (simp add: world_ok_def polls_ok_def dues_ok_def)

lemma world_ok_add_interval:
  assumes inv: "world_ok w"
    and pl: "\<And>u p iid. h \<noteq> UntilPoll u p iid"
    and r: "registry w' = snd (setInterval h i a (registry w))"
    and u: "Untils w' = Untils w" "nextUntil w' = nextUntil w"
  shows "world_ok w'"
proof -
  from inv have ok: "polls_ok w" and du: "dues_ok w" by (simp_all add: world_ok_def)
  have "dues_ok w'"
    using du r clamp_ms_nonneg[of i]
    by (auto simp: dues_ok_def setInterval_simps update_conv' split: if_splits)
  moreover have "polls_ok w'"
    using ok r u pl unfolding polls_ok_def
    by (simp add: setInterval_simps update_conv' distinct_update)
  ultimately show ?thesis by (simp add: world_ok_def)
qed

lemma world_ok_add_timeout:
  assumes inv: "world_ok w"
    and pl: "\<And>u p iid. h \<noteq> UntilPoll u p iid"
    and r: "registry w' = snd (setTimeout h i a (registry w))"
    and u: "Untils w' = Untils w" "nextUntil w' = nextUntil w"
  shows "world_ok w'"
proof -
  from inv have ok: "polls_ok w" and du: "dues_ok w" by (simp_all add: world_ok_def)
  have "dues_ok w'"
    using du r clamp_ms_nonneg[of i]
    by (auto simp: dues_ok_def setTimeout_simps update_conv' split: if_splits)
  moreover have "polls_ok w'"
    using ok r u pl unfolding polls_ok_def
    by (simp add: setTimeout_simps update_conv' distinct_update)
  ultimately show ?thesis by (simp add: world_ok_def)
qed

lemma world_ok_clear_interval:
  assumes inv: "world_ok w"
    and r: "registry w' = clearInterval k (registry w)"
    and u: "Untils w' = Untils w" "nextUntil w' = nextUntil w"
  shows "world_ok w'"
proof -
  from inv have ok: "polls_ok w" and du: "dues_ok w" by (simp_all add: world_ok_def)
  have "dues_ok w'"
    using du r by (auto simp: dues_ok_def clearInterval_def delete_conv' split: if_splits)
  moreover have "polls_ok w'"
    by (rule polls_ok_shrink[OF ok])
       (use r u polls_ok_distinct[OF ok] in
         \<open>auto simp: clearInterval_def distinct_delete delete_conv' split: if_splits\<close>)
  ultimately show ?thesis by (simp add: world_ok_def)
qed

lemma world_ok_clear_timeout:
  assumes inv: "world_ok w"
    and r: "registry w' = clearTimeout k (registry w)"
    and u: "Untils w' = Untils w" "nextUntil w' = nextUntil w"
  shows "world_ok w'"
proof -
  from inv have ok: "polls_ok w" and du: "dues_ok w" by (simp_all add: world_ok_def)
  have "dues_ok w'"
    using du r by (auto simp: dues_ok_def clearTimeout_def delete_conv' split: if_splits)
  moreover have "polls_ok w'"
    by (rule polls_ok_shrink[OF ok])
       (use r u polls_ok_distinct[OF ok] in
         \<open>auto simp: clearTimeout_def distinct_delete delete_conv' split: if_splits\<close>)
  ultimately show ?thesis by (simp add: world_ok_def)
qed

lemma world_ok_Interval_start: "world_ok w \<Longrightarrow> world_ok (Interval_start i w)"
proof (cases "i_isStarted (Intervals w i)")
  case True
  moreover assume "world_ok w"
  ultimately show ?thesis by (simp add: Interval_start_def)
next
  case False
  assume w: "world_ok w"
  show ?thesis
    by (rule world_ok_add_interval[OF w, where h = "IntervalTick i" and i = "Some (i_interval (Intervals w i))" and a = "[]"])
       (use False in \<open>simp_all add: Interval_start_def Let_def split_beta\<close>)
qed

lemma world_ok_Interval_cancel: "world_ok w \<Longrightarrow> world_ok (Interval_cancel i w)"
proof (cases "i_canceller (Intervals w i)")
  case INoop
  assume w: "world_ok w"
  show ?thesis by (rule world_ok_cong[OF w]) (use INoop in \<open>simp_all add: Interval_cancel_def\<close>)
next
  case (IClear k)
  assume w: "world_ok w"
  show ?thesis by (rule world_ok_clear_interval[OF w, where k = k]) (use IClear in \<open>simp_all add: Interval_cancel_def\<close>)
qed

lemma world_ok_Interval_reset: "world_ok w \<Longrightarrow> world_ok (Interval_reset i v w)"
  by (rule world_ok_cong[OF world_ok_Interval_cancel[of w i]]) (simp_all add: Interval_reset_def Let_def)

lemma world_ok_Interval_new: "world_ok w \<Longrightarrow> world_ok (snd (Interval_new v s w))"
proof -
  assume w: "world_ok w"
  let ?w1 = "w\<lparr>Intervals := (Intervals w)(nextInterval w :=
                    \<lparr>i_onTick = [], i_interval = max 0 v, i_isStarted = False, i_canceller = INoop\<rparr>),
                 nextInterval := nextInterval w + 1\<rparr>"
  have "world_ok ?w1" by (rule world_ok_cong[OF w]) simp_all
  then show ?thesis using world_ok_Interval_start[of ?w1 "nextInterval w"]
    by (simp add: Interval_new_def Let_def)
qed

lemma world_ok_settle: "world_ok w \<Longrightarrow> world_ok (settle p x w)"
  by (simp add: settle_def world_ok_def polls_ok_def dues_ok_def)

lemma world_ok_Delay_start: "world_ok w \<Longrightarrow> world_ok (Delay_start d w)"
proof (cases "d_isStarted (Delays w d)")
  case True
  moreover assume "world_ok w"
  ultimately show ?thesis by (simp add: Delay_start_def)
next
  case False
  assume w: "world_ok w"
  let ?w1 = "(if \<not> d_isInitialized (Delays w d)
                  then (let (p, w') = createPromise w
                        in w'\<lparr>Delays := (Delays w')(d := (Delays w' d)
                               \<lparr>d_promise := p, d_resolver := p, d_rejecter := p,
                                d_isInitialized := True\<rparr>)\<rparr>)
                  else w)"
  have w1: "world_ok ?w1"
    by (rule world_ok_cong[OF w]) (simp_all add: createPromise_def new_promise_def Let_def)
  show ?thesis
    by (rule world_ok_add_timeout[OF w1, where h = "DelayElapsed d" and i = "Some (d_duration (Delays ?w1 d))" and a = "[]"])
       (use False in \<open>simp_all add: Delay_start_def Let_def split_beta\<close>)
qed

lemma world_ok_Delay_cancel: "world_ok w \<Longrightarrow> world_ok (Delay_cancel d w)"
proof (cases "d_canceller (Delays w d)")
  case Noop
  moreover assume "world_ok w"
  ultimately show ?thesis by (simp add: Delay_cancel_def)
next
  case (CancelTimeout k rj)
  assume w: "world_ok w"
  show ?thesis
    by (rule world_ok_clear_timeout[OF w, where k = k])
       (use CancelTimeout in \<open>simp_all add: Delay_cancel_def Let_def settle_def\<close>)
qed

lemma world_ok_Delay_reset: "world_ok w \<Longrightarrow> world_ok (Delay_reset d v w)"
  by (rule world_ok_cong[OF world_ok_Delay_cancel[of w d]]) (simp_all add: Delay_reset_def Let_def)

lemma world_ok_Delay_new: "world_ok w \<Longrightarrow> world_ok (snd (Delay_new v rj s w))"
proof -
  assume w: "world_ok w"
  let ?w1 = "snd (createPromise w)"
  let ?w2 = "?w1\<lparr>Delays := (Delays ?w1)(nextDelay w :=
                    \<lparr>d_promise = fst (createPromise w), d_resolver = fst (createPromise w),
                     d_rejecter = fst (createPromise w),
                     d_canceller = createCanceler None,
                     d_duration = max 0 v, d_rejectOnCancel = rj,
                     d_isStarted = False, d_isInitialized = True\<rparr>),
                  nextDelay := nextDelay w + 1\<rparr>"
  have "world_ok ?w2" by (rule world_ok_cong[OF w]) (simp_all add: createPromise_def new_promise_def Let_def)
  then show ?thesis using world_ok_Delay_start[of ?w2 "nextDelay w"]
    by (simp add: Delay_new_def Let_def split_beta)
qed

lemma world_ok_Until_start:
  assumes w: "world_ok w" and al: "u < nextUntil w"
  shows "world_ok (Until_start u w)"
proof (cases "u_isStarted (Untils w u)")
  case True
  with w show ?thesis by (simp add: Until_start_def)
next
  case False
  let ?r = "registry w"
  let ?k = "currentId ?r"
  let ?p = "nextPromise w"
  let ?v = "\<lparr>handler = UntilPoll u ?p ?k, args = [], allowedExecutionTime = lastTime ?r + clamp_ms (Some 0),
             interval = clamp_ms (Some 0)\<rparr>"
  let ?w' = "Until_start u w"
  have iv: "intervals (registry ?w') = AList.update ?k ?v (intervals ?r)"
    and tm: "timeouts (registry ?w') = timeouts ?r"
    and lt: "lastTime (registry ?w') = lastTime ?r"
    and nu: "nextUntil ?w' = nextUntil w"
    and un: "Untils ?w' = (Untils w)(u := (Untils w u)\<lparr>u_isStarted := True, u_promise := ?p\<rparr>)"
    using False
    by (simp_all add: Until_start_def Let_def split_beta new_promise_def setInterval_simps
          generateId_def)
  from w have ok: "polls_ok w" and du: "dues_ok w" by (simp_all add: world_ok_def)
  have none: "\<And>k it p iid. map_of (intervals ?r) k = Some it \<Longrightarrow> handler it \<noteq> UntilPoll u p iid"
    using ok False unfolding polls_ok_def by blast
  have "dues_ok ?w'"
    using du by (auto simp: dues_ok_def iv tm lt update_conv' clamp_ms_def split: if_splits)
  moreover have "polls_ok ?w'"
    unfolding polls_ok_def
  proof (intro conjI allI impI)
    show "distinct (map fst (intervals (registry ?w')))"
      using polls_ok_distinct(1)[OF ok] by (simp add: iv distinct_update)
    show "distinct (map fst (timeouts (registry ?w')))"
      using polls_ok_distinct(2)[OF ok] by (simp add: tm)
  next
    fix k it u' p iid
    assume a: "map_of (intervals (registry ?w')) k = Some it" "handler it = UntilPoll u' p iid"
    show "iid = k" "u' < nextUntil ?w'" "u_isStarted (Untils ?w' u')" "u_condition (Untils ?w' u') \<noteq> None"
    proof -
      consider "k = ?k" "it = ?v" | "k \<noteq> ?k" "map_of (intervals ?r) k = Some it"
        using a(1) by (auto simp: iv update_conv' split: if_splits)
      then have "iid = k \<and> u' < nextUntil ?w' \<and> u_isStarted (Untils ?w' u') \<and> u_condition (Untils ?w' u') \<noteq> None"
      proof cases
        case 1
        with a(2) have "u' = u" "iid = k" by simp_all
        moreover from ok al False have "u_condition (Untils w u) \<noteq> None" unfolding polls_ok_def by blast
        ultimately show ?thesis using al by (simp add: un nu)
      next
        case 2
        with ok a(2) have "iid = k \<and> u' < nextUntil w \<and> u_isStarted (Untils w u') \<and> u_condition (Untils w u') \<noteq> None"
          unfolding polls_ok_def by blast
        moreover from none[OF 2(2)] a(2) have "u' \<noteq> u" by auto
        ultimately show ?thesis by (simp add: un nu)
      qed
      then show "iid = k" "u' < nextUntil ?w'" "u_isStarted (Untils ?w' u')" "u_condition (Untils ?w' u') \<noteq> None"
        by simp_all
    qed
  next
    fix k k' it it' u' p p'
    assume a: "map_of (intervals (registry ?w')) k = Some it" "map_of (intervals (registry ?w')) k' = Some it'"
      "handler it = UntilPoll u' p k" "handler it' = UntilPoll u' p' k'"
    have o1: "k = ?k \<or> (k \<noteq> ?k \<and> map_of (intervals ?r) k = Some it)"
      using a(1) by (auto simp: iv update_conv' split: if_splits)
    have o2: "k' = ?k \<or> (k' \<noteq> ?k \<and> map_of (intervals ?r) k' = Some it')"
      using a(2) by (auto simp: iv update_conv' split: if_splits)
    have v1: "k = ?k \<Longrightarrow> u' = u" using a(1,3) by (auto simp: iv update_conv')
    have v2: "k' = ?k \<Longrightarrow> u' = u" using a(2,4) by (auto simp: iv update_conv')
    from o1 o2 show "k = k'"
    proof (elim disjE conjE)
      assume "k = ?k" "k' = ?k" then show ?thesis by simp
    next
      assume "k = ?k" "map_of (intervals ?r) k' = Some it'"
      with v1 none[OF this(2)] a(4) show ?thesis by auto
    next
      assume "map_of (intervals ?r) k = Some it" "k' = ?k"
      with v2 none[OF this(1)] a(3) show ?thesis by auto
    next
      assume "map_of (intervals ?r) k = Some it" "map_of (intervals ?r) k' = Some it'"
      with ok a(3,4) show ?thesis unfolding polls_ok_def by blast
    qed
  next
    fix k t u' p iid
    assume "map_of (timeouts (registry ?w')) k = Some t"
    with ok show "handler t \<noteq> UntilPoll u' p iid" unfolding polls_ok_def by (simp add: tm) 
  next
    fix u'
    assume "u' < nextUntil ?w'" "\<not> u_isStarted (Untils ?w' u')"
    then have "u' \<noteq> u" "u' < nextUntil w" "\<not> u_isStarted (Untils w u')"
      by (auto simp: un nu split: if_splits)
    with ok show "u_condition (Untils ?w' u') \<noteq> None" unfolding polls_ok_def by (simp add: un)
  qed
  ultimately show ?thesis by (simp add: world_ok_def)
qed

lemma world_ok_Until_new: 
  assumes w: "world_ok w"
  shows "world_ok (snd (Until_new c s w))"
proof -
  let ?u = "nextUntil w"
  let ?w1 = "snd (new_promise Fulfilled w)"
  let ?w2 = "?w1\<lparr>Untils := (Untils ?w1)(?u :=
                    \<lparr>u_promise = fst (new_promise Fulfilled w), u_condition = Some c, u_isStarted = False\<rparr>),
                  nextUntil := ?u + 1\<rparr>"
  from w have ok: "polls_ok w" and du: "dues_ok w" by (simp_all add: world_ok_def)
  have r: "registry ?w2 = registry w" by (simp add: new_promise_def Let_def)
  have un: "Untils ?w2 = (Untils w)(?u := \<lparr>u_promise = fst (new_promise Fulfilled w), u_condition = Some c, u_isStarted = False\<rparr>)"
    by (simp add: new_promise_def Let_def)
  have nu: "nextUntil ?w2 = ?u + 1" by simp
  have old: "\<And>k it u p iid. map_of (intervals (registry w)) k = Some it \<Longrightarrow> handler it = UntilPoll u p iid \<Longrightarrow> u \<noteq> ?u"
    using ok unfolding polls_ok_def by fastforce
  have "dues_ok ?w2" using du by (simp add: dues_ok_def new_promise_def Let_def)
  moreover have "polls_ok ?w2"
    unfolding polls_ok_def r un nu
  proof (intro conjI allI impI)
    show "distinct (map fst (intervals (registry w)))" "distinct (map fst (timeouts (registry w)))"
      using polls_ok_distinct[OF ok] by simp_all
  next
    fix k it u p iid
    assume a: "map_of (intervals (registry w)) k = Some it" "handler it = UntilPoll u p iid"
    with ok have "iid = k \<and> u < nextUntil w \<and> u_isStarted (Untils w u) \<and> u_condition (Untils w u) \<noteq> None"
      unfolding polls_ok_def by blast
    with old[OF a] show "iid = k" "u < ?u + 1"
      "u_isStarted (((Untils w)(?u := \<lparr>u_promise = fst (new_promise Fulfilled w), u_condition = Some c, u_isStarted = False\<rparr>)) u)"
      "u_condition (((Untils w)(?u := \<lparr>u_promise = fst (new_promise Fulfilled w), u_condition = Some c, u_isStarted = False\<rparr>)) u) \<noteq> None"
      by simp_all
  next
    fix k k' it it' u p p'
    assume "map_of (intervals (registry w)) k = Some it" "map_of (intervals (registry w)) k' = Some it'"
      "handler it = UntilPoll u p k" "handler it' = UntilPoll u p' k'"
    with ok show "k = k'" unfolding polls_ok_def by blast
  next
    fix k t u p iid
    assume "map_of (timeouts (registry w)) k = Some t"
    with ok show "handler t \<noteq> UntilPoll u p iid" unfolding polls_ok_def by blast
  next
    fix u
    assume a: "u < ?u + 1"
      "\<not> u_isStarted (((Untils w)(?u := \<lparr>u_promise = fst (new_promise Fulfilled w), u_condition = Some c, u_isStarted = False\<rparr>)) u)"
    show "u_condition (((Untils w)(?u := \<lparr>u_promise = fst (new_promise Fulfilled w), u_condition = Some c, u_isStarted = False\<rparr>)) u) \<noteq> None"
    proof (cases "u = ?u")
      case True then show ?thesis by simp
    next
      case False
      with a have "u < nextUntil w" "\<not> u_isStarted (Untils w u)" by simp_all
      with ok False show ?thesis unfolding polls_ok_def by simp
    qed
  qed
  ultimately have w2: "world_ok ?w2" by (simp add: world_ok_def)
  have "?u < nextUntil ?w2" by simp
  from world_ok_Until_start[OF w2 this] w2 show ?thesis
    by (simp add: Until_new_def Let_def split_beta)
qed

lemma world_ok_init: "world_ok (init t)"
  by (simp add: world_ok_def polls_ok_def dues_ok_def init_def new_registry_def)

lemma exec_world_ok:
  assumes w: "world_ok w"
  shows "\<exists>w'. exec x w = Inr w' \<and> world_ok w'"
proof (cases x)
  case (Update delta)
  with update_world_ok[OF w] show ?thesis by simp
next
  case (SetInterval n i a)
  have "world_ok (w\<lparr>registry := snd (setInterval (UserHandler n) i a (registry w))\<rparr>)"
    by (rule world_ok_add_interval[OF w, where h = "UserHandler n" and i = i and a = a]) simp_all
  with SetInterval show ?thesis by simp
next
  case (ClearInterval k)
  have "world_ok (w\<lparr>registry := clearInterval k (registry w)\<rparr>)"
    by (rule world_ok_clear_interval[OF w, where k = k]) simp_all
  with ClearInterval show ?thesis by simp
next
  case (SetTimeout n i a)
  have "world_ok (w\<lparr>registry := snd (setTimeout (UserHandler n) i a (registry w))\<rparr>)"
    by (rule world_ok_add_timeout[OF w, where h = "UserHandler n" and i = i and a = a]) simp_all
  with SetTimeout show ?thesis by simp
next
  case (ClearTimeout k)
  have "world_ok (w\<lparr>registry := clearTimeout k (registry w)\<rparr>)"
    by (rule world_ok_clear_timeout[OF w, where k = k]) simp_all
  with ClearTimeout show ?thesis by simp
next
  case (NewInterval v s)
  with world_ok_Interval_new[OF w] show ?thesis by simp
next
  case (IntervalStart i)
  with world_ok_Interval_start[OF w] w show ?thesis by simp
next
  case (IntervalCancel i)
  with world_ok_Interval_cancel[OF w] w show ?thesis by simp
next
  case (IntervalReset i v)
  with world_ok_Interval_reset[OF w] w show ?thesis by simp
next
  case (OnTickAdd i l)
  have "world_ok (onTick_add i l w)" by (rule world_ok_cong[OF w]) (simp_all add: onTick_add_def)
  with OnTickAdd w show ?thesis by simp
next
  case (OnTickRemove i l)
  have "world_ok (onTick_remove i l w)" by (rule world_ok_cong[OF w]) (simp_all add: onTick_remove_def)
  with OnTickRemove w show ?thesis by simp
next
  case (NewDelay v rj s)
  with world_ok_Delay_new[OF w] show ?thesis by simp
next
  case (DelayStart d)
  with world_ok_Delay_start[OF w] w show ?thesis by simp
next
  case (DelayCancel d)
  with world_ok_Delay_cancel[OF w] w show ?thesis by simp
next
  case (DelayReset d v)
  with world_ok_Delay_reset[OF w] w show ?thesis by simp
next
  case (DelayThen d a)
  have "world_ok (Delay_then d a w)" by (rule world_ok_cong[OF w]) (simp_all add: Delay_then_def attach_def)
  with DelayThen w show ?thesis by simp
next
  case (NewUntil c s)
  with world_ok_Until_new[OF w] show ?thesis by simp
next
  case (NewWhile c s)
  with world_ok_Until_new[OF w] show ?thesis by (simp add: While_new_def)
next
  case (UntilStart u)
  with world_ok_Until_start[OF w] w show ?thesis by simp
next
  case (UntilThen u a)
  have "world_ok (Until_then u a w)" by (rule world_ok_cong[OF w]) (simp_all add: Until_then_def attach_def)
  with UntilThen w show ?thesis by simp
next
  case (SetFlag n b)
  have "world_ok (w\<lparr>flags := (flags w)(n := b)\<rparr>)" by (rule world_ok_cong[OF w]) simp_all
  with SetFlag show ?thesis by simp
qed

lemma run_world_ok:
  assumes "world_ok w"
  shows "\<exists>w'. run xs w = Inr w' \<and> world_ok w'"
  using assms
proof (induction xs arbitrary: w)
  case Nil
  then show ?case by simp
next
  case (Cons x xs)
  from exec_world_ok[OF Cons.prems] obtain w1 where "exec x w = Inr w1" "world_ok w1" by blast
  with Cons.IH[of w1] show ?case by simp
qed




lemma reachable_world_ok:
  assumes "run ops (init t0) = Inr w"
  shows "world_ok w"
  using run_world_ok[OF world_ok_init, of ops t0] assms by auto

lemmas model_defs = init_def new_registry_def setInterval_def setTimeout_def generateId_def clamp_ms_def
  clearInterval_def clearTimeout_def Until_new_def Until_start_def new_promise_def Let_def
  MIN_SAFE_INTEGER_def MAX_SAFE_INTEGER_def

lemma sample_run: "run sample_ops (init 0) = Inr sample_world"
  by (simp add: sample_world_def sample_ops_def model_defs)

lemma sample_intervals:
  "intervals (registry sample_world) =
     [(MIN_SAFE_INTEGER,
       \<lparr>handler = UserHandler 1, args = [], allowedExecutionTime = 500, interval = 500\<rparr>),
      (MIN_SAFE_INTEGER + 2,
       \<lparr>handler = UntilPoll 0 1 (MIN_SAFE_INTEGER + 2), args = [], allowedExecutionTime = 0,
          interval = 0\<rparr>)]"
  by (simp add: sample_world_def sample_ops_def model_defs)

lemma sample_facts:
  "trace sample_world = []" "lastTime (registry sample_world) = 0"
  by (simp_all add: sample_world_def sample_ops_def model_defs)

lemma sample_update: "update 1100 sample_world = Inr (projr (update 1100 sample_world))"
  by (simp add: sample_world_def sample_ops_def model_defs update_def step_interval_def
        step_timeout_def set_due_def Until_poll_def settle_def)

section \<open>Frame properties of the calls\<close>

lemma for_each_preserves:
  assumes step: "\<And>k w w'. f k w = Inr w' \<Longrightarrow> R w w'"
    and refl: "\<And>w. R w w"
    and trans: "\<And>a b c. R a b \<Longrightarrow> R b c \<Longrightarrow> R a c"
    and run: "for_each f ks w = Inr w'"
  shows "R w w'"
  using run
proof (induction ks arbitrary: w)
  case Nil
  then show ?case by (simp add: refl)
next
  case (Cons k ks)
  from Cons.prems obtain w1 where a: "f k w = Inr w1" and b: "for_each f ks w1 = Inr w'"
    by (rule for_each_Cons_Inr)
  from trans[OF step[OF a] Cons.IH[OF b]] show ?case .
qed

lemma update_preserves:
  assumes hand: "\<And>h a w w'. call_handler h a w = Inr w' \<Longrightarrow> R w w'"
    and refl: "\<And>w. R w w"
    and trans: "\<And>a b c. R a b \<Longrightarrow> R b c \<Longrightarrow> R a c"
    and due: "\<And>w k c. R w (w\<lparr>registry := set_due k c (registry w)\<rparr>)"
    and clr: "\<And>w k. R w (w\<lparr>registry := clearTimeout k (registry w)\<rparr>)"
    and trc: "\<And>w e. R w (w\<lparr>trace := trace w @ [e]\<rparr>)"
    and up: "update delta w = Inr w'"
  shows "\<exists>w2. R w w2 \<and> w' = w2\<lparr>registry := (registry w2)\<lparr>lastTime := lastTime (registry w) + delta\<rparr>\<rparr>"
proof -
  let ?cur = "lastTime (registry w) + delta"
  have si: "R w w'" if "step_interval ?cur k w = Inr w'" for k w w'
  proof (cases "map_of (intervals (registry w)) k")
    case None
    with that show ?thesis by (simp add: step_interval_def refl)
  next
    case (Some it)
    show ?thesis
    proof (cases "allowedExecutionTime it \<le> ?cur")
      case False
      with that Some show ?thesis by (simp add: step_interval_def refl)
    next
      case True
      with that Some obtain w1 where
        c: "call_handler (handler it) (args it) (w\<lparr>trace := trace w @ [IntervalInvoked k]\<rparr>) = Inr w1"
        and w': "w' = w1\<lparr>registry := set_due k ?cur (registry w1)\<rparr>"
        by (auto simp: step_interval_def split: sum.splits)
      from trans[OF trans[OF trc hand[OF c]] due] w' show ?thesis by simp
    qed
  qed
  have st: "R w w'" if "step_timeout ?cur k w = Inr w'" for k w w'
  proof (cases "map_of (timeouts (registry w)) k")
    case None
    with that show ?thesis by (simp add: step_timeout_def refl)
  next
    case (Some t)
    show ?thesis
    proof (cases "allowedExecutionTime t \<le> ?cur")
      case False
      with that Some show ?thesis by (simp add: step_timeout_def refl)
    next
      case True
      with that Some obtain w1 where
        c: "call_handler (handler t) (args t) (w\<lparr>trace := trace w @ [TimeoutInvoked k]\<rparr>) = Inr w1"
        and w': "w' = w1\<lparr>registry := clearTimeout k (registry w1)\<rparr>"
        by (auto simp: step_timeout_def split: sum.splits)
      from trans[OF trans[OF trc hand[OF c]] clr] w' show ?thesis by simp
    qed
  qed
  from up obtain w1 w2 where
    a: "for_each (step_interval ?cur) (map fst (intervals (registry w))) w = Inr w1"
    and b: "for_each (step_timeout ?cur) (map fst (timeouts (registry w1))) w1 = Inr w2"
    and c: "w' = w2\<lparr>registry := (registry w2)\<lparr>lastTime := ?cur\<rparr>\<rparr>"
    by (auto simp: update_def Let_def split: sum.splits)
  have "R w w1" by (rule for_each_preserves[where R = R, OF si refl trans a])
  moreover have "R w1 w2" by (rule for_each_preserves[where R = R, OF st refl trans b])
  ultimately have "R w w2" by (rule trans)
  with c show ?thesis by blast
qed

lemma grows_refl: "grows w w"
  by (simp add: grows_def)

lemma grows_trans:
  assumes ab: "grows a b" and bc: "grows b c"
  shows "grows a c"
  unfolding grows_def
proof (intro conjI allI impI)
  show "nextUntil a \<le> nextUntil c" "nextPromise a \<le> nextPromise c" "nextDelay a \<le> nextDelay c"
    using ab bc by (simp_all add: grows_def)
next
  fix u assume u: "u < nextUntil a" "u_isStarted (Untils a u)"
  with ab have "u < nextUntil b" "u_isStarted (Untils b u)" by (auto simp: grows_def)
  with bc show "u_isStarted (Untils c u)" by (auto simp: grows_def)
next
  fix p assume p: "p < nextPromise a"
  with ab have pb: "p < nextPromise b" by (auto simp: grows_def)
  { assume s: "state (promises a p) \<noteq> Pending"
    with ab p have "state (promises b p) = state (promises a p)" by (simp add: grows_def)
    moreover with bc pb s have "state (promises c p) = state (promises b p)" by (simp add: grows_def)
    ultimately show "state (promises c p) = state (promises a p)" by simp
  }
  from ab p have "set (reactions (promises a p)) \<subseteq> set (reactions (promises b p))" by (simp add: grows_def)
  moreover from bc pb have "set (reactions (promises b p)) \<subseteq> set (reactions (promises c p))" by (simp add: grows_def)
  ultimately show "set (reactions (promises a p)) \<subseteq> set (reactions (promises c p))" by blast
qed

lemma grows_frame:
  assumes "nextUntil w' = nextUntil w" "nextPromise w' = nextPromise w" "nextDelay w' = nextDelay w"
    "promises w' = promises w" "\<forall>u. u_isStarted (Untils w' u) = u_isStarted (Untils w u)"
  shows "grows w w'"
  using assms by (simp add: grows_def)

lemma grows_settle: "grows w (settle p s w)"
  by (simp add: grows_def settle_def)

lemma grows_attach: "grows w (attach p a w)"
  by (auto simp: grows_def attach_def)

lemma grows_new_promise: "grows w (snd (new_promise s w))"
  by (simp add: grows_def new_promise_def Let_def)

lemma call_handler_grows:
  assumes "call_handler h a w = Inr w'"
  shows "grows w w'"
proof (cases h)
  case (IntervalTick i)
  with assms have "w' = Event_fire (i_onTick (Intervals w i)) (now (registry w)) w" by simp
  then show ?thesis by (simp add: grows_frame Event_fire_def)
next
  case (DelayElapsed d)
  let ?w1 = "w\<lparr>Delays := (Delays w)(d := (Delays w d)
                  \<lparr>d_isStarted := False, d_isInitialized := False,
                   d_canceller := createCanceler None\<rparr>)\<rparr>"
  from DelayElapsed assms have "w' = settle (d_resolver (Delays ?w1 d)) Fulfilled ?w1"
    by (simp add: Delay_elapsed_def Let_def)
  moreover have "grows w ?w1" by (simp add: grows_frame)
  ultimately show ?thesis using grows_trans[OF _ grows_settle] by blast
next
  case (UntilPoll u p k)
  with assms have c: "Until_poll u p k w = Inr w'" by simp
  show ?thesis
  proof (cases "w' = w")
    case True
    then show ?thesis by (simp add: grows_refl)
  next
    case False
    let ?w1 = "settle p Fulfilled w"
    from c False have "w' = ?w1\<lparr>registry := clearInterval k (registry ?w1),
        Untils := (Untils ?w1)(u := (Untils ?w1 u)\<lparr>u_condition := None\<rparr>)\<rparr>"
      by (auto simp: Until_poll_def Let_def split: option.splits if_splits)
    moreover have "grows ?w1 (?w1\<lparr>registry := clearInterval k (registry ?w1),
        Untils := (Untils ?w1)(u := (Untils ?w1 u)\<lparr>u_condition := None\<rparr>)\<rparr>)"
      by (simp add: grows_frame)
    ultimately show ?thesis using grows_trans[OF grows_settle] by simp
  qed
next
  case (UserHandler n)
  with assms have "w' = w\<lparr>trace := trace w @ [UserCalled n a]\<rparr>" by auto
  then show ?thesis by (simp add: grows_frame)
qed

lemma update_grows:
  assumes "update delta w = Inr w'"
  shows "grows w w'"
proof -
  have "\<exists>w2. grows w w2 \<and> w' = w2\<lparr>registry := (registry w2)\<lparr>lastTime := lastTime (registry w) + delta\<rparr>\<rparr>"
    by (rule update_preserves[where R = grows, OF call_handler_grows grows_refl grows_trans _ _ _ assms])
       (simp_all add: grows_frame)
  then obtain w2 where a: "grows w w2"
    and b: "w' = w2\<lparr>registry := (registry w2)\<lparr>lastTime := lastTime (registry w) + delta\<rparr>\<rparr>"
    by blast
  have "grows w2 w'" unfolding b by (simp add: grows_frame)
  with a show ?thesis by (rule grows_trans)
qed

lemma grows_Interval_start: "grows w (Interval_start i w)"
  by (rule grows_frame) (simp_all add: Interval_start_def Let_def split_beta)

lemma grows_Interval_cancel: "grows w (Interval_cancel i w)"
  by (rule grows_frame) (simp_all add: Interval_cancel_def Let_def split: icanceller.splits)

lemma grows_Interval_reset: "grows w (Interval_reset i v w)"
  by (rule grows_frame) (simp_all add: Interval_reset_def Interval_cancel_def Let_def split: icanceller.splits)

lemma grows_Interval_new: "grows w (snd (Interval_new v s w))"
  by (rule grows_frame) (simp_all add: Interval_new_def Interval_start_def Let_def split_beta)

lemma grows_Delay_start: "grows w (Delay_start d w)"
proof (cases "d_isStarted (Delays w d)")
  case True
  then show ?thesis by (simp add: Delay_start_def grows_refl)
next
  case False
  let ?w1 = "(if \<not> d_isInitialized (Delays w d)
                  then (let (p, w') = createPromise w
                        in w'\<lparr>Delays := (Delays w')(d := (Delays w' d)
                               \<lparr>d_promise := p, d_resolver := p, d_rejecter := p,
                                d_isInitialized := True\<rparr>)\<rparr>)
                  else w)"
  have a: "grows w ?w1"
  proof (cases "d_isInitialized (Delays w d)")
    case True
    then show ?thesis by (simp add: grows_refl)
  next
    case False
    have "grows (snd (new_promise Pending w)) ?w1"
      using False by (simp add: grows_frame createPromise_def split_beta)
    with grows_new_promise show ?thesis by (rule grows_trans)
  qed
  have "grows ?w1 (Delay_start d w)"
    using False by (simp add: grows_frame Delay_start_def Let_def split_beta)
  with a show ?thesis by (rule grows_trans)
qed

lemma grows_Delay_cancel: "grows w (Delay_cancel d w)"
proof (cases "d_canceller (Delays w d)")
  case Noop
  then show ?thesis by (simp add: Delay_cancel_def grows_refl)
next
  case (CancelTimeout k rj)
  let ?w1 = "(if d_rejectOnCancel (Delays w d) then settle rj (Rejected ''cancelled'') w else w)"
  have "grows w ?w1" by (simp add: grows_settle grows_refl)
  moreover have "grows ?w1 (Delay_cancel d w)"
    using CancelTimeout by (simp add: grows_frame Delay_cancel_def Let_def)
  ultimately show ?thesis by (rule grows_trans)
qed

lemma grows_Delay_reset: "grows w (Delay_reset d v w)"
proof -
  have "grows (Delay_cancel d w) (Delay_reset d v w)"
    by (simp add: grows_frame Delay_reset_def Let_def)
  with grows_Delay_cancel show ?thesis by (rule grows_trans)
qed

lemma grows_Delay_new: "grows w (snd (Delay_new v rj s w))"
proof -
  let ?w1 = "snd (createPromise w)"
  let ?w2 = "?w1\<lparr>Delays := (Delays ?w1)(nextDelay w :=
                    \<lparr>d_promise = fst (createPromise w), d_resolver = fst (createPromise w),
                     d_rejecter = fst (createPromise w),
                     d_canceller = createCanceler None,
                     d_duration = max 0 v, d_rejectOnCancel = rj,
                     d_isStarted = False, d_isInitialized = True\<rparr>),
                  nextDelay := nextDelay w + 1\<rparr>"
  have "grows w ?w1" by (simp add: createPromise_def grows_new_promise)
  moreover have "grows ?w1 ?w2" by (simp add: grows_def createPromise_def new_promise_def Let_def)
  ultimately have a: "grows w ?w2" by (rule grows_trans)
  have b: "snd (Delay_new v rj s w) = (if s then Delay_start (nextDelay w) ?w2 else ?w2)"
    by (simp add: Delay_new_def Let_def split_beta createPromise_def new_promise_def)
  show ?thesis unfolding b using a grows_trans[OF a grows_Delay_start] by simp
qed

lemma grows_Until_start: "grows w (Until_start u w)"
proof (cases "u_isStarted (Untils w u)")
  case True
  then show ?thesis by (simp add: Until_start_def grows_refl)
next
  case False
  let ?w1 = "w\<lparr>Untils := (Untils w)(u := (Untils w u)\<lparr>u_isStarted := True\<rparr>)\<rparr>"
  have a: "grows w ?w1" by (simp add: grows_def)
  have b: "grows ?w1 (snd (new_promise Pending ?w1))" by (rule grows_new_promise)
  have c: "grows (snd (new_promise Pending ?w1)) (Until_start u w)"
    using False by (simp add: grows_frame Until_start_def Let_def split_beta new_promise_def)
  from grows_trans[OF grows_trans[OF a b] c] show ?thesis .
qed

lemma grows_Until_new: "grows w (snd (Until_new c s w))"
proof -
  let ?w1 = "snd (new_promise Fulfilled w)"
  let ?w2 = "?w1\<lparr>Untils := (Untils ?w1)(nextUntil w :=
                    \<lparr>u_promise = fst (new_promise Fulfilled w), u_condition = Some c, u_isStarted = False\<rparr>),
                  nextUntil := nextUntil w + 1\<rparr>"
  have "grows ?w1 ?w2" by (simp add: grows_def new_promise_def Let_def)
  with grows_new_promise have a: "grows w ?w2" by (rule grows_trans)
  have b: "snd (Until_new c s w) = (if s then Until_start (nextUntil w) ?w2 else ?w2)"
    by (simp add: Until_new_def Let_def split_beta new_promise_def)
  show ?thesis unfolding b using a grows_trans[OF a grows_Until_start] by simp
qed

lemma exec_grows:
  assumes "exec x w = Inr w'"
  shows "grows w w'"
proof (cases x)
  case (Update delta)
  with assms update_grows show ?thesis by simp
next
  case (SetInterval n i a)
  with assms show ?thesis by (auto simp: grows_frame)
next
  case (ClearInterval k)
  with assms show ?thesis by (auto simp: grows_frame)
next
  case (SetTimeout n i a)
  with assms show ?thesis by (auto simp: grows_frame)
next
  case (ClearTimeout k)
  with assms show ?thesis by (auto simp: grows_frame)
next
  case (NewInterval v s)
  with assms grows_Interval_new show ?thesis by auto
next
  case (IntervalStart i)
  with assms grows_Interval_start grows_refl show ?thesis by auto
next
  case (IntervalCancel i)
  with assms grows_Interval_cancel grows_refl show ?thesis by auto
next
  case (IntervalReset i v)
  with assms grows_Interval_reset grows_refl show ?thesis by auto
next
  case (OnTickAdd i l)
  with assms show ?thesis by (auto simp: grows_frame onTick_add_def)
next
  case (OnTickRemove i l)
  with assms show ?thesis by (auto simp: grows_frame onTick_remove_def)
next
  case (NewDelay v rj s)
  with assms grows_Delay_new show ?thesis by auto
next
  case (DelayStart d)
  with assms grows_Delay_start grows_refl show ?thesis by auto
next
  case (DelayCancel d)
  with assms grows_Delay_cancel grows_refl show ?thesis by auto
next
  case (DelayReset d v)
  with assms grows_Delay_reset grows_refl show ?thesis by auto
next
  case (DelayThen d a)
  with assms grows_attach grows_refl show ?thesis by (auto simp: Delay_then_def)
next
  case (NewUntil c s)
  with assms grows_Until_new show ?thesis by auto
next
  case (NewWhile c s)
  with assms grows_Until_new show ?thesis by (auto simp: While_new_def)
next
  case (UntilStart u)
  with assms grows_Until_start grows_refl show ?thesis by auto
next
  case (UntilThen u a)
  with assms grows_attach grows_refl show ?thesis by (auto simp: Until_then_def)
next
  case (SetFlag n b)
  with assms show ?thesis by (auto simp: grows_frame)
qed

lemma run_grows:
  assumes "run xs w = Inr w'"
  shows "grows w w'"
  using assms
proof (induction xs arbitrary: w)
  case Nil
  then show ?case by (simp add: grows_refl)
next
  case (Cons x xs)
  from Cons.prems obtain w1 where a: "exec x w = Inr w1" and b: "run xs w1 = Inr w'"
    by (cases "exec x w") auto
  from grows_trans[OF exec_grows[OF a] Cons.IH[OF b]] show ?case .
qed

lemma same_clock_refl: "same_clock w w"
  by (simp add: same_clock_def)

lemma same_clock_trans: "same_clock a b \<Longrightarrow> same_clock b c \<Longrightarrow> same_clock a c"
  by (simp add: same_clock_def)

lemma call_handler_clock:
  assumes "call_handler h a w = Inr w'"
  shows "same_clock w w'"
  using assms
  by (cases h)
     (auto simp: same_clock_def Event_fire_def Delay_elapsed_def settle_def Until_poll_def
           clearInterval_def Let_def split: option.splits if_splits)

lemma update_clock:
  assumes "update delta w = Inr w'"
  shows "lastTime (registry w') = lastTime (registry w) + delta"
proof -
  have "\<exists>w2. same_clock w w2 \<and> w' = w2\<lparr>registry := (registry w2)\<lparr>lastTime := lastTime (registry w) + delta\<rparr>\<rparr>"
    by (rule update_preserves[where R = same_clock, OF call_handler_clock same_clock_refl same_clock_trans _ _ _ assms])
       (simp_all add: same_clock_def set_due_def clearTimeout_def)
  then show ?thesis by auto
qed

lemma exec_clock:
  assumes "exec x w = Inr w'"
  shows "lastTime (registry w') = lastTime (registry w) + (case x of Update delta \<Rightarrow> delta | _ \<Rightarrow> 0)"
proof (cases x)
  case (Update delta)
  with assms update_clock show ?thesis by simp
next
  case (NewInterval v s)
  with assms show ?thesis
    by (auto simp: Interval_new_def Interval_start_def Let_def split_beta setInterval_simps)
next
  case (IntervalStart i)
  with assms show ?thesis
    by (auto simp: Interval_start_def Let_def split_beta setInterval_simps)
next
  case (IntervalCancel i)
  with assms show ?thesis
    by (auto simp: Interval_cancel_def clearInterval_def Let_def split: icanceller.splits)
next
  case (IntervalReset i v)
  with assms show ?thesis
    by (auto simp: Interval_reset_def Interval_cancel_def clearInterval_def Let_def split: icanceller.splits)
next
  case (NewDelay v rj s)
  with assms show ?thesis
    by (auto simp: Delay_new_def Delay_start_def createPromise_def new_promise_def Let_def split_beta
          setTimeout_simps)
next
  case (DelayStart d)
  with assms show ?thesis
    by (auto simp: Delay_start_def createPromise_def new_promise_def Let_def split_beta setTimeout_simps)
next
  case (DelayCancel d)
  with assms show ?thesis
    by (auto simp: Delay_cancel_def settle_def clearTimeout_def Let_def split: canceller.splits)
next
  case (DelayReset d v)
  with assms show ?thesis
    by (auto simp: Delay_reset_def Delay_cancel_def settle_def clearTimeout_def Let_def split: canceller.splits)
next
  case (NewUntil c s)
  with assms show ?thesis
    by (auto simp: Until_new_def Until_start_def new_promise_def Let_def split_beta setInterval_simps)
next
  case (NewWhile c s)
  with assms show ?thesis
    by (auto simp: While_new_def Until_new_def Until_start_def new_promise_def Let_def split_beta setInterval_simps)
next
  case (UntilStart u)
  with assms show ?thesis
    by (auto simp: Until_start_def new_promise_def Let_def split_beta setInterval_simps)
qed (use assms in \<open>auto simp: setInterval_simps setTimeout_simps clearInterval_def clearTimeout_def
       onTick_add_def onTick_remove_def Delay_then_def Until_then_def attach_def\<close>)

lemma stays_idle_refl: "stays_idle d w w"
  by (simp add: stays_idle_def)

lemma stays_idle_trans: "stays_idle d a b \<Longrightarrow> stays_idle d b c \<Longrightarrow> stays_idle d a c"
  by (auto simp: stays_idle_def)

lemma stays_idle_frame:
  assumes "nextDelay w' = nextDelay w" "d_canceller (Delays w' d) = d_canceller (Delays w d)"
  shows "stays_idle d w w'"
  using assms by (simp add: stays_idle_def)

lemma call_handler_idle:
  assumes "call_handler h a w = Inr w'"
  shows "stays_idle d w w'"
proof (cases h)
  case (IntervalTick i)
  with assms show ?thesis by (auto simp: stays_idle_def Event_fire_def)
next
  case (DelayElapsed d')
  with assms show ?thesis
    by (auto simp: stays_idle_def Delay_elapsed_def settle_def createCanceler_def Let_def)
next
  case (UntilPoll u p k)
  with assms show ?thesis
    by (auto simp: stays_idle_def Until_poll_def settle_def Let_def split: option.splits if_splits)
next
  case (UserHandler n)
  with assms show ?thesis by (auto simp: stays_idle_def)
qed

lemma update_idle:
  assumes "update delta w = Inr w'"
  shows "stays_idle d w w'"
proof -
  have "\<exists>w2. stays_idle d w w2 \<and> w' = w2\<lparr>registry := (registry w2)\<lparr>lastTime := lastTime (registry w) + delta\<rparr>\<rparr>"
    by (rule update_preserves[where R = "stays_idle d", OF call_handler_idle stays_idle_refl stays_idle_trans _ _ _ assms])
       (simp_all add: stays_idle_def)
  then show ?thesis by (auto simp: stays_idle_def)
qed

lemma Delay_start_other:
  "d' \<noteq> d \<Longrightarrow> stays_idle d w (Delay_start d' w)"
  by (simp add: stays_idle_def Delay_start_def createPromise_def new_promise_def Let_def split_beta)

lemma Delay_cancel_idle: "stays_idle d w (Delay_cancel d' w)"
  by (simp add: stays_idle_def Delay_cancel_def settle_def Let_def split: canceller.splits)

lemma Delay_reset_idle: "stays_idle d w (Delay_reset d' v w)"
  by (simp add: stays_idle_def Delay_reset_def Delay_cancel_def settle_def Let_def split: canceller.splits)

lemma Delay_new_idle: "stays_idle d w (snd (Delay_new v rj s w))"
  by (simp add: stays_idle_def Delay_new_def Delay_start_def createPromise_def new_promise_def
        Let_def split_beta)

lemma exec_idle:
  assumes "exec x w = Inr w'" and "x \<noteq> DelayStart d"
  shows "stays_idle d w w'"
proof (cases x)
  case (Update delta)
  with assms update_idle show ?thesis by simp
next
  case (NewInterval v s)
  with assms show ?thesis
    by (auto simp: stays_idle_def Interval_new_def Interval_start_def Let_def split_beta)
next
  case (IntervalStart i)
  with assms show ?thesis
    by (auto simp: stays_idle_def Interval_start_def Let_def split_beta)
next
  case (IntervalCancel i)
  with assms show ?thesis
    by (auto simp: stays_idle_def Interval_cancel_def Let_def split: icanceller.splits)
next
  case (IntervalReset i v)
  with assms show ?thesis
    by (auto simp: stays_idle_def Interval_reset_def Interval_cancel_def Let_def split: icanceller.splits)
next
  case (NewDelay v rj s)
  with assms Delay_new_idle show ?thesis by auto
next
  case (DelayStart d')
  with assms Delay_start_other[of d' d w] stays_idle_refl show ?thesis by auto
next
  case (DelayCancel d')
  with assms Delay_cancel_idle stays_idle_refl show ?thesis by auto
next
  case (DelayReset d' v)
  with assms Delay_reset_idle stays_idle_refl show ?thesis by auto
next
  case (NewUntil c s)
  with assms show ?thesis
    by (auto simp: stays_idle_def Until_new_def Until_start_def new_promise_def Let_def split_beta)
next
  case (NewWhile c s)
  with assms show ?thesis
    by (auto simp: stays_idle_def While_new_def Until_new_def Until_start_def new_promise_def Let_def split_beta)
next
  case (UntilStart u)
  with assms show ?thesis
    by (auto simp: stays_idle_def Until_start_def new_promise_def Let_def split_beta)
qed (use assms in \<open>auto simp: stays_idle_def onTick_add_def onTick_remove_def Delay_then_def
       Until_then_def attach_def\<close>)

lemma run_idle:
  assumes "run xs w = Inr w'" and "DelayStart d \<notin> set xs"
  shows "stays_idle d w w'"
  using assms
proof (induction xs arbitrary: w)
  case Nil
  then show ?case by (simp add: stays_idle_refl)
next
  case (Cons x xs)
  from Cons.prems(1) obtain w1 where a: "exec x w = Inr w1" and b: "run xs w1 = Inr w'"
    by (cases "exec x w") auto
  from Cons.prems(2) have n: "x \<noteq> DelayStart d" "DelayStart d \<notin> set xs" by auto
  from stays_idle_trans[OF exec_idle[OF a n(1)] Cons.IH[OF b n(2)]] show ?case .
qed

lemma Delay_cancel_Noop: "d_canceller (Delays w d) = Noop \<Longrightarrow> Delay_cancel d w = w"
  by (simp add: Delay_cancel_def)

lemma keeps_until_refl: "keeps_until u w w"
  by (simp add: keeps_until_def)

lemma keeps_until_trans: "keeps_until u a b \<Longrightarrow> keeps_until u b c \<Longrightarrow> keeps_until u a c"
  by (auto simp: keeps_until_def)

lemma keeps_until_frame:
  assumes "nextUntil w' = nextUntil w" "Untils w' = Untils w"
  shows "keeps_until u w w'"
  using assms by (simp add: keeps_until_def)

lemma call_handler_keeps:
  assumes "call_handler h a w = Inr w'"
  shows "keeps_until u w w'"
proof (cases h)
  case (IntervalTick i)
  with assms show ?thesis by (auto simp: keeps_until_def Event_fire_def)
next
  case (DelayElapsed d')
  with assms have "w' = Delay_elapsed d' w" by simp
  then show ?thesis by (simp add: keeps_until_def Delay_elapsed_def settle_def Let_def)
next
  case (UntilPoll u' p k)
  with assms have c: "Until_poll u' p k w = Inr w'" by simp
  show ?thesis
  proof (cases "w' = w")
    case True
    then show ?thesis by (simp add: keeps_until_refl)
  next
    case False
    let ?w1 = "settle p Fulfilled w"
    from c False have "w' = ?w1\<lparr>registry := clearInterval k (registry ?w1),
        Untils := (Untils ?w1)(u' := (Untils ?w1 u')\<lparr>u_condition := None\<rparr>)\<rparr>"
      by (auto simp: Until_poll_def Let_def split: option.splits if_splits)
    then show ?thesis by (simp add: keeps_until_def settle_def)
  qed
next
  case (UserHandler n)
  with assms show ?thesis by (auto simp: keeps_until_def)
qed

lemma update_keeps:
  assumes "update delta w = Inr w'"
  shows "keeps_until u w w'"
proof -
  have "\<exists>w2. keeps_until u w w2 \<and> w' = w2\<lparr>registry := (registry w2)\<lparr>lastTime := lastTime (registry w) + delta\<rparr>\<rparr>"
    by (rule update_preserves[where R = "keeps_until u", OF call_handler_keeps keeps_until_refl keeps_until_trans _ _ _ assms])
       (simp_all add: keeps_until_def)
  then show ?thesis by (auto simp: keeps_until_def)
qed

lemma Until_start_other: "u' \<noteq> u \<Longrightarrow> keeps_until u w (Until_start u' w)"
  by (simp add: keeps_until_def Until_start_def new_promise_def Let_def split_beta)

lemma Until_new_keeps: "keeps_until u w (snd (Until_new c s w))"
  by (simp add: keeps_until_def Until_new_def Until_start_def new_promise_def Let_def split_beta)

lemma untils_Interval:
  "Untils (Interval_start i w) = Untils w" "nextUntil (Interval_start i w) = nextUntil w"
  "Untils (Interval_cancel i w) = Untils w" "nextUntil (Interval_cancel i w) = nextUntil w"
  "Untils (Interval_reset i v w) = Untils w" "nextUntil (Interval_reset i v w) = nextUntil w"
  "Untils (snd (Interval_new v s w)) = Untils w" "nextUntil (snd (Interval_new v s w)) = nextUntil w"
  "Untils (onTick_add i l w) = Untils w" "nextUntil (onTick_add i l w) = nextUntil w"
  "Untils (onTick_remove i l w) = Untils w" "nextUntil (onTick_remove i l w) = nextUntil w"
  by (simp_all add: Interval_start_def Interval_cancel_def Interval_reset_def Interval_new_def
        onTick_add_def onTick_remove_def Let_def split_beta split: icanceller.splits)

lemma untils_settle: "Untils (settle p s w) = Untils w" "nextUntil (settle p s w) = nextUntil w"
  by (simp_all add: settle_def)

lemma untils_Delay_start: "Untils (Delay_start d w) = Untils w" "nextUntil (Delay_start d w) = nextUntil w"
  by (simp_all add: Delay_start_def createPromise_def new_promise_def Let_def split_beta)

lemma untils_Delay_cancel: "Untils (Delay_cancel d w) = Untils w" "nextUntil (Delay_cancel d w) = nextUntil w"
  by (simp_all add: Delay_cancel_def untils_settle Let_def split: canceller.splits)

lemma untils_Delay_reset: "Untils (Delay_reset d v w) = Untils w" "nextUntil (Delay_reset d v w) = nextUntil w"
  by (simp_all add: Delay_reset_def untils_Delay_cancel Let_def)

lemma untils_Delay_new:
  "Untils (snd (Delay_new v rj s w)) = Untils w" "nextUntil (snd (Delay_new v rj s w)) = nextUntil w"
  by (simp_all add: Delay_new_def untils_Delay_start createPromise_def new_promise_def Let_def split_beta)

lemma untils_attach: "Untils (attach p a w) = Untils w" "nextUntil (attach p a w) = nextUntil w"
  by (simp_all add: attach_def)

lemmas untils_frames = untils_Interval untils_Delay_start untils_Delay_cancel untils_Delay_reset
  untils_Delay_new untils_attach

lemma exec_keeps:
  assumes "exec x w = Inr w'" and "x \<noteq> UntilStart u"
  shows "keeps_until u w w'"
proof (cases x)
  case (Update delta)
  with assms update_keeps show ?thesis by simp
next
  case (SetInterval n i a)
  with assms have "w' = w\<lparr>registry := snd (setInterval (UserHandler n) i a (registry w))\<rparr>" by simp
  then show ?thesis by (simp add: keeps_until_frame)
next
  case (ClearInterval k)
  with assms have "w' = w\<lparr>registry := clearInterval k (registry w)\<rparr>" by simp
  then show ?thesis by (simp add: keeps_until_frame)
next
  case (SetTimeout n i a)
  with assms have "w' = w\<lparr>registry := snd (setTimeout (UserHandler n) i a (registry w))\<rparr>" by simp
  then show ?thesis by (simp add: keeps_until_frame)
next
  case (ClearTimeout k)
  with assms have "w' = w\<lparr>registry := clearTimeout k (registry w)\<rparr>" by simp
  then show ?thesis by (simp add: keeps_until_frame)
next
  case (NewInterval v s)
  with assms have "w' = snd (Interval_new v s w)" by simp
  then show ?thesis by (simp add: keeps_until_frame untils_frames)
next
  case (IntervalStart i)
  with assms have "w' = Interval_start i w \<or> w' = w" by (auto split: if_splits)
  then show ?thesis by (auto simp: keeps_until_frame untils_frames)
next
  case (IntervalCancel i)
  with assms have "w' = Interval_cancel i w \<or> w' = w" by (auto split: if_splits)
  then show ?thesis by (auto simp: keeps_until_frame untils_frames)
next
  case (IntervalReset i v)
  with assms have "w' = Interval_reset i v w \<or> w' = w" by (auto split: if_splits)
  then show ?thesis by (auto simp: keeps_until_frame untils_frames)
next
  case (OnTickAdd i l)
  with assms have "w' = onTick_add i l w \<or> w' = w" by (auto split: if_splits)
  then show ?thesis by (auto simp: keeps_until_frame untils_frames)
next
  case (OnTickRemove i l)
  with assms have "w' = onTick_remove i l w \<or> w' = w" by (auto split: if_splits)
  then show ?thesis by (auto simp: keeps_until_frame untils_frames)
next
  case (NewDelay v rj s)
  with assms have "w' = snd (Delay_new v rj s w)" by simp
  then show ?thesis by (simp add: keeps_until_frame untils_frames)
next
  case (DelayStart d)
  with assms have "w' = Delay_start d w \<or> w' = w" by (auto split: if_splits)
  then show ?thesis by (auto simp: keeps_until_frame untils_frames)
next
  case (DelayCancel d)
  with assms have "w' = Delay_cancel d w \<or> w' = w" by (auto split: if_splits)
  then show ?thesis by (auto simp: keeps_until_frame untils_frames)
next
  case (DelayReset d v)
  with assms have "w' = Delay_reset d v w \<or> w' = w" by (auto split: if_splits)
  then show ?thesis by (auto simp: keeps_until_frame untils_frames)
next
  case (DelayThen d a)
  with assms have "w' = Delay_then d a w \<or> w' = w" by (auto split: if_splits)
  then show ?thesis by (auto simp: keeps_until_frame untils_frames Delay_then_def)
next
  case (NewUntil c s)
  with assms Until_new_keeps show ?thesis by auto
next
  case (NewWhile c s)
  with assms Until_new_keeps show ?thesis by (auto simp: While_new_def)
next
  case (UntilStart u')
  with assms have "u' \<noteq> u" "w' = Until_start u' w \<or> w' = w" by (auto split: if_splits)
  with Until_start_other[of u' u w] keeps_until_refl show ?thesis by auto
next
  case (UntilThen u' a)
  with assms have "w' = Until_then u' a w \<or> w' = w" by (auto split: if_splits)
  then show ?thesis by (auto simp: keeps_until_frame untils_frames Until_then_def)
next
  case (SetFlag n b)
  with assms have "w' = w\<lparr>flags := (flags w)(n := b)\<rparr>" by simp
  then show ?thesis by (simp add: keeps_until_frame)
qed

lemma run_keeps:
  assumes "run xs w = Inr w'" and "UntilStart u \<notin> set xs"
  shows "keeps_until u w w'"
  using assms
proof (induction xs arbitrary: w)
  case Nil
  then show ?case by (simp add: keeps_until_refl)
next
  case (Cons x xs)
  from Cons.prems(1) obtain w1 where a: "exec x w = Inr w1" and b: "run xs w1 = Inr w'"
    by (cases "exec x w") auto
  from Cons.prems(2) have n: "x \<noteq> UntilStart u" "UntilStart u \<notin> set xs" by auto
  from keeps_until_trans[OF exec_keeps[OF a n(1)] Cons.IH[OF b n(2)]] show ?case .
qed

lemmas api_defs = init_def new_registry_def setInterval_def setTimeout_def generateId_def clamp_ms_def
  clearInterval_def clearTimeout_def new_promise_def createPromise_def settle_def attach_def
  Event_add_def Event_remove_def Event_fire_def now_def
  Interval_start_def Interval_cancel_def Interval_reset_def Interval_new_def onTick_add_def onTick_remove_def
  createCanceler_def Delay_elapsed_def Delay_start_def Delay_cancel_def Delay_reset_def Delay_new_def
  Delay_then_def Until_poll_def Until_start_def Until_new_def While_new_def Until_then_def
  set_due_def step_interval_def step_timeout_def update_def
  Let_def MIN_SAFE_INTEGER_def MAX_SAFE_INTEGER_def

text \<open>Starting an \<^verbatim>\<open>Interval\<close> or an \<^verbatim>\<open>Until\<close> that is running changes nothing.\<close>

lemma Interval_start_twice: "Interval_start i (Interval_start i w) = Interval_start i w"
  by (simp add: Interval_start_def Let_def split_beta)

lemma Until_start_twice: "Until_start u (Until_start u w) = Until_start u w"
  by (simp add: Until_start_def new_promise_def Let_def split_beta)

text \<open>Cancelling a \<^verbatim>\<open>Delay\<close> whose canceller is armed, while its promise is pending.\<close>

lemma Delay_cancel_armed:
  assumes "d_canceller (Delays w d) = CancelTimeout k p" and "state (promises w p) = Pending"
  shows "promise_state p (Delay_cancel d w) =
           (if d_rejectOnCancel (Delays w d) then Rejected ''cancelled'' else Pending)"
    and "map_of (timeouts (registry (Delay_cancel d w))) k = None"
  using assms
  by (simp_all add: promise_state_def Delay_cancel_def settle_def clearTimeout_def delete_conv' Let_def)

section \<open>One update across two periods\<close>

text \<open>
  C1 (as stated it fails). Registry at time 0, a started interval of 500 ms with one
  listener, one \<^verbatim>\<open>update(1100)\<close>: the claim expects two ticks carrying 500 and 1000.
  The listener is called once, with the value \<^verbatim>\<open>now()\<close> has during the update, 0.
\<close>

theorem C1_two_ticks_counterexample:
  "after (ticks_of 7 \<circ> trace) (run [NewInterval 500 True, OnTickAdd 0 7, Update 1100] (init 0))
     = Some [0]
   \<and> after (ticks_of 7 \<circ> trace) (run [NewInterval 500 True, OnTickAdd 0 7, Update 1100] (init 0))
     \<noteq> Some [500, 1000]"
  by code_simp

text \<open>
  C1 (amended). In that scenario the tick event fires exactly once during the single
  \<^verbatim>\<open>update(1100)\<close>: the interval's handler is invoked once and its listener is called
  once; afterwards the interval is due again at 1600 and \<^verbatim>\<open>now()\<close> is 1100.
\<close>

theorem C1_one_tick_per_update:
  "after (length \<circ> ticks_of 7 \<circ> trace)
     (run [NewInterval 500 True, OnTickAdd 0 7, Update 1100] (init 0)) = Some 1
   \<and> after (length \<circ> filter ((=) (IntervalInvoked MIN_SAFE_INTEGER)) \<circ> trace)
     (run [NewInterval 500 True, OnTickAdd 0 7, Update 1100] (init 0)) = Some 1
   \<and> after (map (allowedExecutionTime \<circ> snd) \<circ> intervals \<circ> registry)
     (run [NewInterval 500 True, OnTickAdd 0 7, Update 1100] (init 0)) = Some [1600]
   \<and> after (now \<circ> registry)
     (run [NewInterval 500 True, OnTickAdd 0 7, Update 1100] (init 0)) = Some 1100"
  by code_simp

section \<open>What one update does\<close>



section \<open>Due times\<close>

text \<open>
  C3 (as stated it fails). The claim has the due time of a repeating item grow by
  exactly its period at each firing. An interval of 500 ms created at time 0 is due at
  500; after \<^verbatim>\<open>update(1100)\<close> fired it, it is due at 1600, not at 500 + 500.
\<close>

theorem C3_due_plus_period_counterexample:
  "after (map (allowedExecutionTime \<circ> snd) \<circ> intervals \<circ> registry)
      (run [SetInterval 1 (Some 500) []] (init 0)) = Some [500]
   \<and> after (map (allowedExecutionTime \<circ> snd) \<circ> intervals \<circ> registry)
      (run [SetInterval 1 (Some 500) [], Update 1100] (init 0)) = Some [1600]
   \<and> (1600 :: int) \<noteq> 500 + 500"
  by code_simp

text \<open>
  C3 (amended). An entry is created with due time \<^verbatim>\<open>now()\<close> of the registry plus
  \<open>max(interval, 0)\<close> (plus 0 when the argument is absent), for intervals and for
  timeouts. When \<^verbatim>\<open>update(delta)\<close> fires an interval entry in a reachable world, its
  due time becomes the registry's clock plus \<open>delta\<close> plus its interval. Nothing but
  the registry's own clock enters either computation.
\<close>

theorem C3_due_times:
  assumes reach: "run ops (init t0) = Inr w" and up: "update delta w = Inr w'"
    and ent: "map_of (intervals (registry w)) k = Some it"
    and due: "allowedExecutionTime it \<le> now (registry w) + delta"
    and still: "map_of (intervals (registry w')) k = Some it'"
  shows "allowedExecutionTime it' = now (registry w) + delta + interval it
    \<and> map_of (intervals (snd (setInterval h i a r))) (fst (setInterval h i a r))
        = Some \<lparr>handler = h, args = a,
                allowedExecutionTime = now r + (case i of None \<Rightarrow> 0 | Some v \<Rightarrow> max v 0),
                interval = (case i of None \<Rightarrow> 0 | Some v \<Rightarrow> max v 0)\<rparr>
    \<and> map_of (timeouts (snd (setTimeout h i a r))) (fst (setTimeout h i a r))
        = Some \<lparr>handler = h, args = a,
                allowedExecutionTime = now r + (case i of None \<Rightarrow> 0 | Some v \<Rightarrow> max v 0)\<rparr>"
proof -
  from reachable_world_ok[OF reach] have ok: "polls_ok w" by (simp add: world_ok_def)
  from update_effect[OF ok, of delta] up
  have "entry_after (lastTime (registry w) + delta)
          (map_of (intervals (registry w)) k) (map_of (intervals (registry w')) k)"
    by auto
  with ent due still have a: "allowedExecutionTime it' = now (registry w) + delta + interval it"
    by (auto simp: entry_after_def now_def)
  have c: "clamp_ms i = (case i of None \<Rightarrow> 0 | Some v \<Rightarrow> max v 0)"
    by (simp add: clamp_ms_def split: option.splits)
  have b1: "map_of (intervals (snd (setInterval h i a r))) (fst (setInterval h i a r))
        = Some \<lparr>handler = h, args = a,
                allowedExecutionTime = now r + (case i of None \<Rightarrow> 0 | Some v \<Rightarrow> max v 0),
                interval = (case i of None \<Rightarrow> 0 | Some v \<Rightarrow> max v 0)\<rparr>"
    by (simp add: setInterval_simps update_conv' now_def c)
  have b2: "map_of (timeouts (snd (setTimeout h i a r))) (fst (setTimeout h i a r))
        = Some \<lparr>handler = h, args = a,
                allowedExecutionTime = now r + (case i of None \<Rightarrow> 0 | Some v \<Rightarrow> max v 0)\<rparr>"
    by (simp add: setTimeout_simps update_conv' now_def c)
  from a b1 b2 show ?thesis by simp
qed

text \<open>The interval of the sample world, fired by \<^verbatim>\<open>update(1100)\<close>.\<close>

theorem C3_due_times_witness:
  "run sample_ops (init 0) = Inr sample_world
   \<and> update 1100 sample_world = Inr (projr (update 1100 sample_world))
   \<and> map_of (intervals (registry sample_world)) MIN_SAFE_INTEGER
       = Some \<lparr>handler = UserHandler 1, args = [], allowedExecutionTime = 500, interval = 500\<rparr>
   \<and> (500 :: int) \<le> now (registry sample_world) + 1100
   \<and> map_of (intervals (registry (projr (update 1100 sample_world)))) MIN_SAFE_INTEGER
       = Some \<lparr>handler = UserHandler 1, args = [], allowedExecutionTime = 1600, interval = 500\<rparr>
   \<and> (1600 :: int) = now (registry sample_world) + 1100 + 500"
proof -
  have i: "map_of (intervals (registry sample_world)) MIN_SAFE_INTEGER =
    Some \<lparr>handler = UserHandler 1, args = [], allowedExecutionTime = 500, interval = 500\<rparr>"
    by (simp add: sample_intervals)
  have d: "allowedExecutionTime \<lparr>handler = UserHandler 1, args = [], allowedExecutionTime = 500, interval = 500\<rparr>
       \<le> now (registry sample_world) + 1100"
    by (simp add: now_def sample_facts)
  have s: "map_of (intervals (registry (projr (update 1100 sample_world)))) MIN_SAFE_INTEGER
       = Some \<lparr>handler = UserHandler 1, args = [], allowedExecutionTime = 1600, interval = 500\<rparr>"
    by (simp add: sample_world_def sample_ops_def api_defs)
  from C3_due_times[OF sample_run sample_update i d s] i s sample_run sample_update
  show ?thesis by (simp add: now_def sample_facts)
qed

section \<open>The clock\<close>

text \<open>
  C4 (as stated it fails). \<^verbatim>\<open>now()\<close> is 0 in a new registry started at 0 and
  \<open>-5\<close> after \<^verbatim>\<open>update(-5)\<close>: a later call returns a smaller value.
\<close>

theorem C4_now_decreases_counterexample:
  "after (now \<circ> registry) (run [] (init 0)) = Some 0
   \<and> after (now \<circ> registry) (run [Update (- 5)] (init 0)) = Some (- 5)
   \<and> (- 5 :: int) < 0"
  by code_simp

text \<open>
  C4 (amended). Along every sequence of calls in which no \<^verbatim>\<open>update\<close> has a negative
  delta, \<^verbatim>\<open>now()\<close> after the sequence is at least \<^verbatim>\<open>now()\<close> before it.
\<close>

theorem C4_now_monotone_forward:
  assumes "list_all forward ops" and "run ops w = Inr w'"
  shows "now (registry w) \<le> now (registry w')"
  using assms
proof (induction ops arbitrary: w)
  case Nil
  then show ?case by simp
next
  case (Cons x xs)
  from Cons.prems(2) obtain w1 where a: "exec x w = Inr w1" and b: "run xs w1 = Inr w'"
    by (cases "exec x w") auto
  from Cons.prems(1) have f: "forward x" "list_all forward xs" by simp_all
  from exec_clock[OF a] f(1) have "now (registry w) \<le> now (registry w1)"
    by (cases x) (simp_all add: now_def)
  with Cons.IH[OF f(2) b] show ?case by simp
qed

text \<open>Three updates forward from a new registry.\<close>

theorem C4_now_monotone_witness:
  "list_all forward [SetInterval 1 (Some 500) [], Update 300, Update 0, Update 400]
   \<and> run [SetInterval 1 (Some 500) [], Update 300, Update 0, Update 400] (init 0)
       = Inr (projr (run [SetInterval 1 (Some 500) [], Update 300, Update 0, Update 400] (init 0)))
   \<and> now (registry (init 0))
       \<le> now (registry (projr (run [SetInterval 1 (Some 500) [], Update 300, Update 0, Update 400] (init 0))))"
proof -
  have f: "list_all forward [SetInterval 1 (Some 500) [], Update 300, Update 0, Update 400]" by simp
  have r: "run [SetInterval 1 (Some 500) [], Update 300, Update 0, Update 400] (init 0)
       = Inr (projr (run [SetInterval 1 (Some 500) [], Update 300, Update 0, Update 400] (init 0)))"
    by (simp add: api_defs)
  from C4_now_monotone_forward[OF f r] f r show ?thesis by simp
qed

section \<open>Totality and updates with a negative delta\<close>



section \<open>Cancelling a delay\<close>

text \<open>
  C6 (the code departs from it). A \<^verbatim>\<open>Delay\<close> of 1000 ms is created started, with
  \<^verbatim>\<open>rejectOnCancel = false\<close>, and a reaction is attached; \<^verbatim>\<open>start()\<close> is called
  again, then \<^verbatim>\<open>cancel()\<close>. After the cancel the reaction still sees a pending
  promise. The first timer is still registered, and at \<^verbatim>\<open>update(1000)\<close> it fulfils
  the promise of the cancelled delay.
\<close>

theorem C6_cancelled_delay_is_fulfilled:
  "after (awaiter_sees 9 0)
     (run [NewDelay 1000 False True, DelayThen 0 9, DelayStart 0, DelayCancel 0] (init 0))
     = Some (Some Pending)
   \<and> after (awaiter_sees 9 0)
     (run [NewDelay 1000 False True, DelayThen 0 9, DelayStart 0, DelayCancel 0, Update 1000] (init 0))
     = Some (Some Fulfilled)"
  by code_simp

section \<open>Starting twice\<close>

text \<open>
  C7 (the code departs from it). \<^verbatim>\<open>Delay.start\<close> tests \<^verbatim>\<open>_isStarted\<close> and never
  sets it: a second \<^verbatim>\<open>start()\<close> on a running \<^verbatim>\<open>Delay\<close> registers a second timeout.
  For \<^verbatim>\<open>Interval\<close> and \<^verbatim>\<open>Until\<close> the second call changes nothing
  (\<open>Interval_start_twice\<close>, \<open>Until_start_twice\<close>).
\<close>

theorem C7_delay_started_twice:
  "after (map fst \<circ> timeouts \<circ> registry) (run [NewDelay 1000 True False, DelayStart 0] (init 0))
     = Some [MIN_SAFE_INTEGER]
   \<and> after (map fst \<circ> timeouts \<circ> registry)
       (run [NewDelay 1000 True False, DelayStart 0, DelayStart 0] (init 0))
     = Some [MIN_SAFE_INTEGER, MIN_SAFE_INTEGER + 1]"
  by code_simp

section \<open>An Until before and after its start\<close>

text \<open>
  C8. An \<^verbatim>\<open>Until\<close> constructed with \<^verbatim>\<open>autoStart = false\<close> holds a promise that is
  already fulfilled, whatever the condition. A reaction attached at any moment before
  \<^verbatim>\<open>start()\<close> is attached to that promise and sees it fulfilled. \<^verbatim>\<open>start()\<close>
  installs another promise, pending and without reactions; whatever is called
  afterwards, the earlier reaction keeps seeing the first promise, fulfilled.
\<close>

theorem C8_until_not_started_is_resolved:
  assumes new: "Until_new c False w = (u, w1)"
    and r1: "run ops1 w1 = Inr w2" and ns1: "UntilStart u \<notin> set ops1"
    and r2: "run ops2 (Until_then u a w2) = Inr w3" and ns2: "UntilStart u \<notin> set ops2"
    and r3: "run ops3 (Until_start u w3) = Inr w'"
  shows "promise_state (u_promise (Untils w1 u)) w1 = Fulfilled
     \<and> observes (Until_then u a w2) a (u_promise (Untils w1 u)) Fulfilled
     \<and> u_promise (Untils (Until_start u w3) u) \<noteq> u_promise (Untils w1 u)
     \<and> promise_state (u_promise (Untils (Until_start u w3) u)) (Until_start u w3) = Pending
     \<and> reactions (promises (Until_start u w3) (u_promise (Untils (Until_start u w3) u))) = []
     \<and> observes w' a (u_promise (Untils w1 u)) Fulfilled"
proof -
  let ?p0 = "nextPromise w"
  let ?w2' = "Until_then u a w2"
  let ?w4 = "Until_start u w3"
  from new have u: "u = nextUntil w"
    and w1: "w1 = w\<lparr>promises := (promises w)(?p0 := \<lparr>state = Fulfilled, reactions = []\<rparr>),
                   nextPromise := ?p0 + 1,
                   Untils := (Untils w)(u := \<lparr>u_promise = ?p0, u_condition = Some c, u_isStarted = False\<rparr>),
                   nextUntil := u + 1\<rparr>"
    by (auto simp: Until_new_def new_promise_def Let_def)
  have p0: "u_promise (Untils w1 u) = ?p0" by (simp add: w1)
  have al1: "u < nextUntil w1" "\<not> u_isStarted (Untils w1 u)" by (simp_all add: w1)
  have a1: "promise_state ?p0 w1 = Fulfilled" by (simp add: promise_state_def w1)
  have f1: "?p0 < nextPromise w1" "state (promises w1 ?p0) = Fulfilled" by (simp_all add: w1)
  from run_keeps[OF r1 ns1] al1 p0
  have k2: "u < nextUntil w2" "\<not> u_isStarted (Untils w2 u)" "u_promise (Untils w2 u) = ?p0"
    by (auto simp: keeps_until_def)
  from run_grows[OF r1] f1
  have g2: "?p0 < nextPromise w2" "state (promises w2 ?p0) = Fulfilled"
    by (auto simp: grows_def)
  have a2: "observes ?w2' a ?p0 Fulfilled"
    using k2 g2 by (simp add: observes_def Until_then_def attach_def)
  have k2': "u < nextUntil ?w2'" "\<not> u_isStarted (Untils ?w2' u)" "u_promise (Untils ?w2' u) = ?p0"
    "?p0 < nextPromise ?w2'"
    using k2 g2 by (simp_all add: Until_then_def attach_def)
  from run_keeps[OF r2 ns2] k2'
  have k3: "u < nextUntil w3" "\<not> u_isStarted (Untils w3 u)" "u_promise (Untils w3 u) = ?p0"
    by (auto simp: keeps_until_def)
  from run_grows[OF r2] k2'(4) a2
  have g3: "?p0 < nextPromise w3" "observes w3 a ?p0 Fulfilled"
    by (auto simp: grows_def observes_def)
  have a3: "u_promise (Untils ?w4 u) = nextPromise w3"
    using k3 by (simp add: Until_start_def new_promise_def Let_def split_beta)
  have a4: "promise_state (nextPromise w3) ?w4 = Pending"
    using k3 by (simp add: promise_state_def Until_start_def new_promise_def Let_def split_beta)
  have a5: "reactions (promises ?w4 (nextPromise w3)) = []"
    using k3 by (simp add: Until_start_def new_promise_def Let_def split_beta)
  have g4: "?p0 < nextPromise ?w4" "observes ?w4 a ?p0 Fulfilled"
    using k3 g3 by (simp_all add: observes_def Until_start_def new_promise_def Let_def split_beta)
  from run_grows[OF r3] g4 have a6: "observes w' a ?p0 Fulfilled"
    by (auto simp: grows_def observes_def)
  from a1 a2 a3 a4 a5 a6 g3(1) show ?thesis by (simp add: p0)
qed

text \<open>
  A reaction attached after the caller's variable was set and before \<^verbatim>\<open>start()\<close>:
  it sees fulfilment at once, while the promise of the later \<^verbatim>\<open>start()\<close> is pending
  until the first poll.
\<close>

theorem C8_until_witness:
  "Until_new (Flag 0) False (init 0) = (0, until_w1)
   \<and> run [SetFlag 0 True] until_w1 = Inr until_w2
   \<and> UntilStart 0 \<notin> set [SetFlag 0 True]
   \<and> run [Update 0] (Until_then 0 9 until_w2) = Inr until_w3
   \<and> UntilStart 0 \<notin> set [Update 0]
   \<and> run [Update 0, Update 0] (Until_start 0 until_w3) = Inr until_w4
   \<and> observes (Until_then 0 9 until_w2) 9 0 Fulfilled
   \<and> promise_state 1 (Until_start 0 until_w3) = Pending
   \<and> observes until_w4 9 0 Fulfilled"
proof -
  have n: "Until_new (Flag 0) False (init 0) = (0, until_w1)"
    by (simp add: until_w1_def api_defs)
  have r1: "run [SetFlag 0 True] until_w1 = Inr until_w2"
    by (simp add: until_w2_def)
  have ns1: "UntilStart 0 \<notin> set [SetFlag 0 True]" by simp
  have r2: "run [Update 0] (Until_then 0 9 until_w2) = Inr until_w3"
    by (simp add: until_w3_def until_w2_def until_w1_def api_defs)
  have ns2: "UntilStart 0 \<notin> set [Update 0]" by simp
  have r3: "run [Update 0, Update 0] (Until_start 0 until_w3) = Inr until_w4"
    by (simp add: until_w4_def until_w3_def until_w2_def until_w1_def api_defs)
  have p0: "u_promise (Untils until_w1 0) = 0"
    by (simp add: until_w1_def api_defs)
  have p1: "u_promise (Untils (Until_start 0 until_w3) 0) = 1"
    by (simp add: until_w3_def until_w2_def until_w1_def api_defs)
  from C8_until_not_started_is_resolved[OF n r1 ns1 r2 ns2 r3] n r1 ns1 r2 ns2 r3 p0 p1 show ?thesis by simp
qed

section \<open>An Until cannot be started again\<close>

text \<open>
  C9. After \<^verbatim>\<open>start()\<close> on an \<^verbatim>\<open>Until\<close>, its started flag is true, and it is true
  after every further sequence of calls, updates that satisfy the condition included;
  a later \<^verbatim>\<open>start()\<close> leaves the world as it is. A \<^verbatim>\<open>Delay\<close> whose timer has
  fired starts again with a new pending promise.
\<close>

theorem C9_until_stays_started:
  assumes al: "u < nextUntil w0" and r: "run ops (Until_start u w0) = Inr w'"
  shows "u_isStarted (Untils (Until_start u w0) u)
     \<and> u_isStarted (Untils w' u)
     \<and> Until_start u w' = w'
     \<and> d_promise (Delays (Delay_start d (Delay_elapsed d w1)) d) = nextPromise w1
     \<and> promise_state (nextPromise w1) (Delay_start d (Delay_elapsed d w1)) = Pending"
proof -
  have s: "u_isStarted (Untils (Until_start u w0) u)"
    by (simp add: Until_start_def new_promise_def Let_def split_beta)
  have n: "u < nextUntil (Until_start u w0)"
    using al by (simp add: Until_start_def new_promise_def Let_def split_beta)
  from run_grows[OF r] s n have s': "u_isStarted (Untils w' u)" by (simp add: grows_def)
  then have i: "Until_start u w' = w'" by (simp add: Until_start_def)
  have d1: "d_promise (Delays (Delay_start d (Delay_elapsed d w1)) d) = nextPromise w1"
    by (simp add: Delay_start_def Delay_elapsed_def settle_def createPromise_def new_promise_def
          Let_def split_beta)
  have d2: "promise_state (nextPromise w1) (Delay_start d (Delay_elapsed d w1)) = Pending"
    by (simp add: promise_state_def Delay_start_def Delay_elapsed_def settle_def createPromise_def
          new_promise_def Let_def split_beta)
  from s s' i d1 d2 show ?thesis by simp
qed

text \<open>
  An \<^verbatim>\<open>Until\<close> whose condition becomes true: after the updates its promise is
  fulfilled, it is still started, and \<^verbatim>\<open>start()\<close> does nothing.
\<close>

theorem C9_until_witness:
  "(0 :: nat) < nextUntil (snd (Until_new (Flag 0) False (init 0)))
   \<and> run [SetFlag 0 True, Update 0, Update 0, UntilStart 0]
         (Until_start 0 (snd (Until_new (Flag 0) False (init 0))))
       = Inr (projr (run [SetFlag 0 True, Update 0, Update 0, UntilStart 0]
         (Until_start 0 (snd (Until_new (Flag 0) False (init 0))))))
   \<and> u_isStarted (Untils (projr (run [SetFlag 0 True, Update 0, Update 0, UntilStart 0]
         (Until_start 0 (snd (Until_new (Flag 0) False (init 0)))))) 0)
   \<and> promise_state 1 (projr (run [SetFlag 0 True, Update 0, Update 0, UntilStart 0]
         (Until_start 0 (snd (Until_new (Flag 0) False (init 0)))))) = Fulfilled"
proof -
  have a: "(0 :: nat) < nextUntil (snd (Until_new (Flag 0) False (init 0)))"
    by (simp add: api_defs)
  have r: "run [SetFlag 0 True, Update 0, Update 0, UntilStart 0]
         (Until_start 0 (snd (Until_new (Flag 0) False (init 0))))
       = Inr (projr (run [SetFlag 0 True, Update 0, Update 0, UntilStart 0]
         (Until_start 0 (snd (Until_new (Flag 0) False (init 0))))))"
    by (simp add: api_defs)
  have p: "promise_state 1 (projr (run [SetFlag 0 True, Update 0, Update 0, UntilStart 0]
         (Until_start 0 (snd (Until_new (Flag 0) False (init 0)))))) = Fulfilled"
    by (simp add: promise_state_def api_defs)
  from C9_until_stays_started[OF a r] a r p show ?thesis by simp
qed

section \<open>Cancelling a delay that is not running\<close>

text \<open>
  C10. Take a \<^verbatim>\<open>Delay\<close> just constructed without \<^verbatim>\<open>autoStart\<close>, or whose timer
  function has just run, or that has just been cancelled, with any value of
  \<^verbatim>\<open>rejectOnCancel\<close>. After any sequence of calls that does not start it,
  \<^verbatim>\<open>cancel()\<close> returns the world unchanged.
\<close>

theorem C10_cancel_when_idle:
  assumes ns: "DelayStart d \<notin> set ops"
    and al: "d < nextDelay w0"
    and r: "run ops w0 = Inr w'"
    and origin: "(\<exists>v rj w. Delay_new v rj False w = (d, w0))
               \<or> (\<exists>w. w0 = Delay_elapsed d w)
               \<or> (\<exists>w. w0 = Delay_cancel d w)"
  shows "Delay_cancel d w' = w'"
proof -
  have "d_canceller (Delays w0 d) = Noop"
    using origin
  proof (elim disjE exE)
    fix v rj w assume "Delay_new v rj False w = (d, w0)"
    then show ?thesis
      by (auto simp: Delay_new_def createPromise_def new_promise_def createCanceler_def Let_def)
  next
    fix w assume "w0 = Delay_elapsed d w"
    then show ?thesis by (simp add: Delay_elapsed_def settle_def createCanceler_def Let_def)
  next
    fix w assume "w0 = Delay_cancel d w"
    then show ?thesis by (simp add: Delay_cancel_def settle_def Let_def split: canceller.splits)
  qed
  with run_idle[OF r ns] al have "d_canceller (Delays w' d) = Noop" by (simp add: stays_idle_def)
  then show ?thesis by (rule Delay_cancel_Noop)
qed

text \<open>A \<^verbatim>\<open>Delay\<close> with \<^verbatim>\<open>rejectOnCancel = true\<close> that was never started.\<close>

theorem C10_cancel_witness:
  "DelayStart 0 \<notin> set [Update 500, DelayReset 0 200]
   \<and> (0 :: nat) < nextDelay (snd (Delay_new 1000 True False (init 0)))
   \<and> run [Update 500, DelayReset 0 200] (snd (Delay_new 1000 True False (init 0)))
       = Inr (projr (run [Update 500, DelayReset 0 200] (snd (Delay_new 1000 True False (init 0)))))
   \<and> Delay_new 1000 True False (init 0) = (0, snd (Delay_new 1000 True False (init 0)))
   \<and> Delay_cancel 0 (projr (run [Update 500, DelayReset 0 200] (snd (Delay_new 1000 True False (init 0)))))
       = projr (run [Update 500, DelayReset 0 200] (snd (Delay_new 1000 True False (init 0))))"
proof -
  have a: "DelayStart 0 \<notin> set [Update 500, DelayReset 0 200]" by simp
  have b: "(0 :: nat) < nextDelay (snd (Delay_new 1000 True False (init 0)))"
    by (simp add: api_defs)
  have r: "run [Update 500, DelayReset 0 200] (snd (Delay_new 1000 True False (init 0)))
       = Inr (projr (run [Update 500, DelayReset 0 200] (snd (Delay_new 1000 True False (init 0)))))"
    by (simp add: api_defs)
  have n: "Delay_new 1000 True False (init 0) = (0, snd (Delay_new 1000 True False (init 0)))"
    by (simp add: api_defs)
  have o: "(\<exists>v rj w. Delay_new v rj False w = (0, snd (Delay_new 1000 True False (init 0))))
               \<or> (\<exists>w. snd (Delay_new 1000 True False (init 0)) = Delay_elapsed 0 w)
               \<or> (\<exists>w. snd (Delay_new 1000 True False (init 0)) = Delay_cancel 0 w)"
    using n by blast
  from C10_cancel_when_idle[OF a b r o] a b r n show ?thesis by simp
qed

end
